theory Spec2Isabelle
  imports Complex_Main "HOL-Library.AList"
begin

section \<open>Rate limiting dependencies of \<open>core/rate_limiting.py\<close>\<close>

text \<open>
  The module holds five FastAPI dependencies, each deciding from the state kept in a Redis
  server whether a request of \<open>user_id\<close> is allowed. Each one is embedded as a function
  from the store before the call, the arguments and the values read from the clock to the
  outcome and the store after the call.

  Timestamps are Python floats in the source; here they are exact reals, so rounding of
  floating-point arithmetic is outside the model. Python's \<open>int\<close> is unbounded and is
  \<^typ>\<open>int\<close>.
\<close>

subsection \<open>Python primitives\<close>

datatype error =
    HTTPException int string
  | TypeError
  | ValueError
  | ZeroDivisionError

type_synonym response = "(string \<times> string) list"

definition too_many_requests :: error where
  "too_many_requests = HTTPException 429 ''Too many requests''"

definition allowed :: response where
  "allowed = [(''status'', ''Allowed'')]"

text \<open>\<open>int(x)\<close> of a float truncates toward zero.\<close>

definition py_int :: "real \<Rightarrow> int" where
  "py_int x = (if 0 \<le> x then \<lfloor>x\<rfloor> else \<lceil>x\<rceil>)"

text \<open>The decimal text an f-string gives an integer.\<close>

definition digit_char :: "nat \<Rightarrow> char" where
  "digit_char d = ''0123456789'' ! d"

fun show_nat :: "nat \<Rightarrow> string" where
  "show_nat n = (if n < 10 then [digit_char n] else show_nat (n div 10) @ [digit_char (n mod 10)])"

declare show_nat.simps [simp del]

definition show_int :: "int \<Rightarrow> string" where
  "show_int i = (if i < 0 then CHR ''-'' # show_nat (nat (- i)) else show_nat (nat i))"

text \<open>
  \<open>range(start, stop, step)\<close> as the list of its elements; the number of elements is
  the one CPython computes. A zero step raises \<open>ValueError\<close>.
\<close>

definition py_range :: "int \<Rightarrow> int \<Rightarrow> int \<Rightarrow> error + int list" where
  "py_range start stop step =
     (if step = 0 then Inl ValueError
      else if 0 < step then
        Inr (map (\<lambda>k. start + int k * step) [0 ..< nat ((stop - start + step - 1) div step)])
      else
        Inr (map (\<lambda>k. start + int k * step) [0 ..< nat ((start - stop - step - 1) div (- step))]))"

subsection \<open>The Redis store\<close>

text \<open>
  The client is created with \<open>decode_responses=True\<close>, so every value read is the text of
  what was written. A hash field holds the text of an integer or of a float; \<open>int(...)\<close>
  of the text of a float raises \<open>ValueError\<close>, \<open>float(...)\<close> accepts both.
  A string key is only ever written by \<open>INCR\<close> and so holds an integer, with an optional
  expiry instant; an expired key reads as absent. A sorted set is the list of its
  (member, score) pairs, one pair per member. A key that was never written is the empty
  hash, the absent string and the empty sorted set.
\<close>

datatype rval = IntV int | FloatV real

record entry =
  ent_val :: int
  ent_expire_at :: "real option"

record store =
  hashes :: "string \<Rightarrow> string \<rightharpoonup> rval"
  strings :: "string \<rightharpoonup> entry"
  zsets :: "string \<Rightarrow> (real \<times> real) list"

definition empty_store :: store where
  "empty_store = \<lparr>hashes = (\<lambda>_. Map.empty), strings = Map.empty, zsets = (\<lambda>_. [])\<rparr>"

definition int_of_rval :: "rval \<Rightarrow> error + int" where
  "int_of_rval v = (case v of IntV i \<Rightarrow> Inr i | FloatV _ \<Rightarrow> Inl ValueError)"

definition float_of_rval :: "rval \<Rightarrow> real" where
  "float_of_rval v = (case v of IntV i \<Rightarrow> real_of_int i | FloatV r \<Rightarrow> r)"

definition hmget :: "store \<Rightarrow> string \<Rightarrow> string \<Rightarrow> string \<Rightarrow> rval option \<times> rval option" where
  "hmget s key f1 f2 = (hashes s key f1, hashes s key f2)"

definition hmset :: "store \<Rightarrow> string \<Rightarrow> (string \<times> rval) list \<Rightarrow> store" where
  "hmset s key fvs =
     s\<lparr>hashes := (hashes s)(key := fold (\<lambda>(f, v) h. h(f \<mapsto> v)) fvs (hashes s key))\<rparr>"

definition live :: "entry \<Rightarrow> real \<Rightarrow> bool" where
  "live e t = (case ent_expire_at e of None \<Rightarrow> True | Some x \<Rightarrow> t < x)"

definition lookup :: "store \<Rightarrow> real \<Rightarrow> string \<Rightarrow> entry option" where
  "lookup s t key =
     (case strings s key of None \<Rightarrow> None | Some e \<Rightarrow> if live e t then Some e else None)"

definition get :: "store \<Rightarrow> real \<Rightarrow> string \<Rightarrow> int option" where
  "get s t key = map_option ent_val (lookup s t key)"

definition incr :: "store \<Rightarrow> real \<Rightarrow> string \<Rightarrow> store" where
  "incr s t key =
     (case lookup s t key of
        None \<Rightarrow> s\<lparr>strings := (strings s)(key \<mapsto> \<lparr>ent_val = 1, ent_expire_at = None\<rparr>)\<rparr>
      | Some e \<Rightarrow> s\<lparr>strings := (strings s)(key \<mapsto> e\<lparr>ent_val := ent_val e + 1\<rparr>)\<rparr>)"

definition expire :: "store \<Rightarrow> real \<Rightarrow> string \<Rightarrow> int \<Rightarrow> store" where
  "expire s t key ttl =
     (case lookup s t key of
        None \<Rightarrow> s
      | Some e \<Rightarrow>
          if ttl \<le> 0 then s\<lparr>strings := (strings s)(key := None)\<rparr>
          else s\<lparr>strings := (strings s)(key \<mapsto> e\<lparr>ent_expire_at := Some (t + real_of_int ttl)\<rparr>)\<rparr>)"

definition zremrangebyscore :: "store \<Rightarrow> string \<Rightarrow> real \<Rightarrow> real \<Rightarrow> store" where
  "zremrangebyscore s key lo hi =
     s\<lparr>zsets := (zsets s)(key := filter (\<lambda>(m, sc). \<not> (lo \<le> sc \<and> sc \<le> hi)) (zsets s key))\<rparr>"

definition zcard :: "store \<Rightarrow> string \<Rightarrow> int" where
  "zcard s key = int (length (zsets s key))"

definition zadd :: "store \<Rightarrow> string \<Rightarrow> real \<Rightarrow> real \<Rightarrow> store" where
  "zadd s key member score = s\<lparr>zsets := (zsets s)(key := AList.update member score (zsets s key))\<rparr>"

subsection \<open>Token bucket\<close>

text \<open>
  \<open>t_first\<close> is the clock value read when no tokens are stored, \<open>now\<close> the one read
  for the refill.
\<close>

definition token_bucket_key :: "string \<Rightarrow> string" where
  "token_bucket_key user_id = ''token_bucket:'' @ user_id"

definition token_bucket_dependency ::
  "store \<Rightarrow> string \<Rightarrow> int \<Rightarrow> int \<Rightarrow> real \<Rightarrow> real \<Rightarrow> (error + response) \<times> store" where
  "token_bucket_dependency s user_id max_tokens refill_rate t_first now =
     (let key = token_bucket_key user_id;
          (tokens, last_refill_time) = hmget s key ''tokens'' ''last_refill_time'';
          state =
            (case tokens of
               None \<Rightarrow> Inr (max_tokens, t_first)
             | Some tv \<Rightarrow>
                 (case int_of_rval tv of
                    Inl e \<Rightarrow> Inl e
                  | Inr tk \<Rightarrow>
                      (case last_refill_time of
                         None \<Rightarrow> Inl TypeError
                       | Some lv \<Rightarrow> Inr (tk, float_of_rval lv))))
      in case state of
           Inl e \<Rightarrow> (Inl e, s)
         | Inr (tokens, last_refill_time) \<Rightarrow>
             (let tokens_to_add = (now - last_refill_time) * real_of_int refill_rate;
                  tokens = min max_tokens (tokens + py_int tokens_to_add);
                  last_refill_time = now
              in if tokens \<le> 0 then (Inl too_many_requests, s)
                 else
                   (let tokens = tokens - 1
                    in (Inr allowed,
                        hmset s key [(''tokens'', IntV tokens),
                                     (''last_refill_time'', FloatV last_refill_time)]))))"

subsection \<open>Leaky bucket\<close>

text \<open>
  \<open>t_first\<close> is the clock value read when no \<open>last_check\<close> is stored. A value read
  from the store is a non-empty text and so is truthy.
\<close>

definition leaky_bucket_key :: "string \<Rightarrow> string" where
  "leaky_bucket_key user_id = ''leaky_bucket:'' @ user_id"

definition leaky_bucket_dependency ::
  "store \<Rightarrow> string \<Rightarrow> int \<Rightarrow> real \<Rightarrow> real \<Rightarrow> real \<Rightarrow> (error + response) \<times> store" where
  "leaky_bucket_dependency s user_id capacity leak_rate t_first now =
     (let key = leaky_bucket_key user_id;
          (requests, last_check) = hmget s key ''requests'' ''last_check''
      in case (case requests of None \<Rightarrow> Inr 0 | Some rv \<Rightarrow> int_of_rval rv) of
           Inl e \<Rightarrow> (Inl e, s)
         | Inr requests \<Rightarrow>
             (let last_check = (case last_check of None \<Rightarrow> t_first | Some lv \<Rightarrow> float_of_rval lv);
                  leaked = (now - last_check) * leak_rate;
                  requests = max 0 (requests - py_int leaked);
                  last_check = now
              in if requests \<ge> capacity then (Inl too_many_requests, s)
                 else
                   (let requests = requests + 1
                    in (Inr allowed,
                        hmset s key [(''requests'', IntV requests),
                                     (''last_check'', FloatV last_check)]))))"

subsection \<open>Fixed window counter\<close>

text \<open>
  \<open>now\<close> is the one clock value the call reads; the store's clock shows the same
  instant. \<open>time.time() // window_seconds\<close> is a floor division of a float by an integer.
\<close>

definition fixed_window_key :: "string \<Rightarrow> int \<Rightarrow> string" where
  "fixed_window_key user_id window = ''fixed_window:'' @ user_id @ '':'' @ show_int window"

definition fixed_window_counter_dependency ::
  "store \<Rightarrow> string \<Rightarrow> int \<Rightarrow> int \<Rightarrow> real \<Rightarrow> (error + response) \<times> store" where
  "fixed_window_counter_dependency s user_id max_requests window_seconds now =
     (if window_seconds = 0 then (Inl ZeroDivisionError, s)
      else
        (let key = fixed_window_key user_id \<lfloor>now / real_of_int window_seconds\<rfloor>;
             requests = get s now key
         in if (case requests of None \<Rightarrow> False | Some r \<Rightarrow> r \<ge> max_requests)
            then (Inl too_many_requests, s)
            else (Inr allowed, expire (incr s now key) now key window_seconds)))"

subsection \<open>Sliding window log\<close>

definition sliding_window_log_key :: "string \<Rightarrow> string" where
  "sliding_window_log_key user_id = ''sliding_window_log:'' @ user_id"

definition sliding_window_log_dependency ::
  "store \<Rightarrow> string \<Rightarrow> int \<Rightarrow> int \<Rightarrow> real \<Rightarrow> (error + response) \<times> store" where
  "sliding_window_log_dependency s user_id max_requests window_seconds now =
     (let key = sliding_window_log_key user_id;
          s = zremrangebyscore s key 0 (now - real_of_int window_seconds);
          request_count = zcard s key
      in if request_count \<ge> max_requests then (Inl too_many_requests, s)
         else (Inr allowed, zadd s key now now))"

subsection \<open>Sliding window counter\<close>

text \<open>
  \<open>t\<close> is the clock value the call reads, \<open>now = int(t)\<close>; the store's clock shows
  \<open>t\<close>. The division for the key of the current sub-window comes before the range, so
  a zero \<open>sub_window_seconds\<close> raises \<open>ZeroDivisionError\<close>.
\<close>

definition sliding_window_counter_key :: "string \<Rightarrow> int \<Rightarrow> string" where
  "sliding_window_counter_key user_id sub_window =
     ''sliding_window_counter:'' @ user_id @ '':'' @ show_int sub_window"

definition sliding_window_counter_dependency ::
  "store \<Rightarrow> string \<Rightarrow> int \<Rightarrow> int \<Rightarrow> int \<Rightarrow> real \<Rightarrow> (error + response) \<times> store" where
  "sliding_window_counter_dependency s user_id max_requests window_seconds sub_window_seconds t =
     (let now = py_int t
      in if sub_window_seconds = 0 then (Inl ZeroDivisionError, s)
         else
           (let key_pattern = sliding_window_counter_key user_id (now div sub_window_seconds);
                window_start = now - window_seconds
            in case py_range window_start now sub_window_seconds of
                 Inl e \<Rightarrow> (Inl e, s)
               | Inr timestamps \<Rightarrow>
                   (let total_requests =
                          sum_list (map (\<lambda>timestamp.
                            (case get s t (sliding_window_counter_key user_id
                                             (timestamp div sub_window_seconds)) of
                               None \<Rightarrow> 0 | Some r \<Rightarrow> r)) timestamps)
                    in if total_requests \<ge> max_requests then (Inl too_many_requests, s)
                       else (Inr allowed,
                             expire (incr s t key_pattern) t key_pattern window_seconds))))"

section \<open>Observations and runs\<close>

text \<open>
  The state a leaky-bucket call works on: the stored pair, or the defaults of the source
  when nothing is stored (\<open>t_first\<close> being the clock value read for the default).
\<close>

definition leaky_bucket_state :: "store \<Rightarrow> string \<Rightarrow> real \<Rightarrow> (int \<times> real) option" where
  "leaky_bucket_state s user_id t_first =
     (case hmget s (leaky_bucket_key user_id) ''requests'' ''last_check'' of
        (None, None) \<Rightarrow> Some (0, t_first)
      | (Some (IntV r), Some (FloatV l)) \<Rightarrow> Some (r, l)
      | _ \<Rightarrow> None)"

text \<open>Calls made one after the other, each at one instant of the list.\<close>

fun leaky_bucket_run ::
  "store \<Rightarrow> string \<Rightarrow> int \<Rightarrow> real \<Rightarrow> real list \<Rightarrow> (error + response) list \<times> store" where
  "leaky_bucket_run s user_id capacity leak_rate [] = ([], s)"
| "leaky_bucket_run s user_id capacity leak_rate (t # ts) =
     (let (out, s') = leaky_bucket_dependency s user_id capacity leak_rate t t;
          (outs, s'') = leaky_bucket_run s' user_id capacity leak_rate ts
      in (out # outs, s''))"

text \<open>
  The state a token-bucket call works on: the stored pair, or the defaults of the source
  when no tokens are stored.
\<close>

definition token_bucket_state :: "store \<Rightarrow> string \<Rightarrow> int \<Rightarrow> real \<Rightarrow> (int \<times> real) option" where
  "token_bucket_state s user_id max_tokens t_first =
     (case hmget s (token_bucket_key user_id) ''tokens'' ''last_refill_time'' of
        (None, _) \<Rightarrow> Some (max_tokens, t_first)
      | (Some (IntV t), Some (FloatV l)) \<Rightarrow> Some (t, l)
      | _ \<Rightarrow> None)"

text \<open>The pair stored by an allowed call, if there is one.\<close>

definition token_bucket_stored :: "store \<Rightarrow> string \<Rightarrow> (int \<times> real) option" where
  "token_bucket_stored s user_id =
     (case hmget s (token_bucket_key user_id) ''tokens'' ''last_refill_time'' of
        (Some (IntV t), Some (FloatV l)) \<Rightarrow> Some (t, l)
      | _ \<Rightarrow> None)"

text \<open>
  Calls made one after the other; a call is the pair of its clock values
  \<open>(t_first, now)\<close>. The trace lists the outcome and the store after each call.
\<close>

fun token_bucket_trace ::
  "store \<Rightarrow> string \<Rightarrow> int \<Rightarrow> int \<Rightarrow> (real \<times> real) list \<Rightarrow> ((error + response) \<times> store) list" where
  "token_bucket_trace s user_id max_tokens refill_rate [] = []"
| "token_bucket_trace s user_id max_tokens refill_rate ((t_first, now) # calls) =
     (let (out, s') = token_bucket_dependency s user_id max_tokens refill_rate t_first now
      in (out, s') # token_bucket_trace s' user_id max_tokens refill_rate calls)"

fun clock_reads :: "(real \<times> real) list \<Rightarrow> real list" where
  "clock_reads [] = []"
| "clock_reads ((t_first, now) # calls) = t_first # now # clock_reads calls"

text \<open>Stores used as concrete inputs.\<close>

definition exhausted_store :: store where
  "exhausted_store =
     hmset empty_store (token_bucket_key ''alice'')
       [(''tokens'', IntV 0), (''last_refill_time'', FloatV 0)]"

definition regressed_token_store :: store where
  "regressed_token_store =
     hmset empty_store (token_bucket_key ''alice'')
       [(''tokens'', IntV 8), (''last_refill_time'', FloatV 100)]"

definition regressed_leaky_store :: store where
  "regressed_leaky_store =
     hmset empty_store (leaky_bucket_key ''alice'')
       [(''requests'', IntV 2), (''last_check'', FloatV 100)]"

text \<open>
  Sliding-window-log calls made one after the other; a call is the triple
  \<open>(max_requests, window_seconds, now)\<close>.
\<close>

fun sliding_window_log_run ::
  "store \<Rightarrow> string \<Rightarrow> (int \<times> int \<times> real) list \<Rightarrow> (error + response) list \<times> store" where
  "sliding_window_log_run s user_id [] = ([], s)"
| "sliding_window_log_run s user_id ((max_requests, window_seconds, now) # calls) =
     (let (out, s') = sliding_window_log_dependency s user_id max_requests window_seconds now;
          (outs, s'') = sliding_window_log_run s' user_id calls
      in (out # outs, s''))"

text \<open>
  The entries of a log that a purge at \<open>now\<close> with \<open>window_seconds\<close> leaves: those
  whose score is not in the closed range from 0 to \<open>now - window_seconds\<close>.
\<close>

definition purged :: "real \<Rightarrow> int \<Rightarrow> (real \<times> real) list \<Rightarrow> (real \<times> real) list" where
  "purged now window_seconds z = filter (\<lambda>(m, sc). sc < 0 \<or> now - real_of_int window_seconds < sc) z"

text \<open>
  The store after one allowed fixed-window call, and the store after two allowed
  sliding-window-log calls with \<open>max_requests = 2\<close>.
\<close>

definition once_counted_store :: store where
  "once_counted_store = snd (fixed_window_counter_dependency empty_store ''alice'' 1 60 5)"

definition two_entry_log_store :: store where
  "two_entry_log_store = snd (sliding_window_log_run empty_store ''alice'' [(2, 10, 1), (2, 10, 5)])"

text \<open>Fixed-window calls made one after the other, at the instants of the list.\<close>

fun fixed_window_counter_run ::
  "store \<Rightarrow> string \<Rightarrow> int \<Rightarrow> int \<Rightarrow> real list \<Rightarrow> (error + response) list \<times> store" where
  "fixed_window_counter_run s user_id max_requests window_seconds [] = ([], s)"
| "fixed_window_counter_run s user_id max_requests window_seconds (t # ts) =
     (let (out, s') = fixed_window_counter_dependency s user_id max_requests window_seconds t;
          (outs, s'') = fixed_window_counter_run s' user_id max_requests window_seconds ts
      in (out # outs, s''))"

text \<open>
  The counter of a window holds \<open>c\<close>: the key is absent and \<open>c = 0\<close>, or it holds
  \<open>c > 0\<close> with an expiry set by a call made in that window.
\<close>

definition window_count :: "store \<Rightarrow> string \<Rightarrow> int \<Rightarrow> int \<Rightarrow> int \<Rightarrow> bool" where
  "window_count s user_id window_seconds window c =
     (case strings s (fixed_window_key user_id window) of
        None \<Rightarrow> c = 0
      | Some e \<Rightarrow>
          c = ent_val e \<and> 0 < c \<and>
          (case ent_expire_at e of
             None \<Rightarrow> False
           | Some x \<Rightarrow> \<lfloor>(x - real_of_int window_seconds) / real_of_int window_seconds\<rfloor> = window))"

text \<open>Sliding-window-counter calls made one after the other, at the instants of the list.\<close>

fun sliding_window_counter_run ::
  "store \<Rightarrow> string \<Rightarrow> int \<Rightarrow> int \<Rightarrow> int \<Rightarrow> real list \<Rightarrow> (error + response) list \<times> store" where
  "sliding_window_counter_run s user_id max_requests window_seconds sub_window_seconds [] = ([], s)"
| "sliding_window_counter_run s user_id max_requests window_seconds sub_window_seconds (t # ts) =
     (let (out, s') = sliding_window_counter_dependency s user_id max_requests window_seconds
                        sub_window_seconds t;
          (outs, s'') = sliding_window_counter_run s' user_id max_requests window_seconds
                          sub_window_seconds ts
      in (out # outs, s''))"

text \<open>
  A token-bucket call talks to the store twice: it reads the hash, and later writes it. The
  read, and the rest of the call on the values read, which runs on the store as it is at
  the time of the write.
\<close>

definition token_bucket_read :: "store \<Rightarrow> string \<Rightarrow> rval option \<times> rval option" where
  "token_bucket_read s user_id =
     hmget s (token_bucket_key user_id) ''tokens'' ''last_refill_time''"

definition token_bucket_finish ::
  "store \<Rightarrow> string \<Rightarrow> int \<Rightarrow> int \<Rightarrow> rval option \<times> rval option \<Rightarrow> real \<Rightarrow> real
     \<Rightarrow> (error + response) \<times> store" where
  "token_bucket_finish s user_id max_tokens refill_rate read t_first now =
     (let key = token_bucket_key user_id;
          (tokens, last_refill_time) = read;
          state =
            (case tokens of
               None \<Rightarrow> Inr (max_tokens, t_first)
             | Some tv \<Rightarrow>
                 (case int_of_rval tv of
                    Inl e \<Rightarrow> Inl e
                  | Inr tk \<Rightarrow>
                      (case last_refill_time of
                         None \<Rightarrow> Inl TypeError
                       | Some lv \<Rightarrow> Inr (tk, float_of_rval lv))))
      in case state of
           Inl e \<Rightarrow> (Inl e, s)
         | Inr (tokens, last_refill_time) \<Rightarrow>
             (let tokens_to_add = (now - last_refill_time) * real_of_int refill_rate;
                  tokens = min max_tokens (tokens + py_int tokens_to_add);
                  last_refill_time = now
              in if tokens \<le> 0 then (Inl too_many_requests, s)
                 else
                   (let tokens = tokens - 1
                    in (Inr allowed,
                        hmset s key [(''tokens'', IntV tokens),
                                     (''last_refill_time'', FloatV last_refill_time)]))))"

text \<open>Two calls of one identity whose reads both come before either write.\<close>

definition token_bucket_interleaved ::
  "store \<Rightarrow> string \<Rightarrow> int \<Rightarrow> int \<Rightarrow> real \<Rightarrow> real \<Rightarrow> real \<Rightarrow> real
     \<Rightarrow> (error + response) list \<times> store" where
  "token_bucket_interleaved s user_id max_tokens refill_rate t_first_a now_a t_first_b now_b =
     (let read_a = token_bucket_read s user_id;
          read_b = token_bucket_read s user_id;
          (out_a, s1) = token_bucket_finish s user_id max_tokens refill_rate read_a t_first_a now_a;
          (out_b, s2) = token_bucket_finish s1 user_id max_tokens refill_rate read_b t_first_b now_b
      in ([out_a, out_b], s2))"

section \<open>Leaky bucket\<close>

lemma leaky_bucket_step:
  assumes "leaky_bucket_state s uid t_first = Some (r, l)"
  shows "leaky_bucket_dependency s uid capacity leak_rate t_first now =
     (if capacity \<le> max 0 (r - py_int ((now - l) * leak_rate)) then (Inl too_many_requests, s)
      else (Inr allowed, hmset s (leaky_bucket_key uid)
              [(''requests'', IntV (max 0 (r - py_int ((now - l) * leak_rate)) + 1)),
               (''last_check'', FloatV now)]))"
  using assms
  by (auto simp: leaky_bucket_state_def leaky_bucket_dependency_def hmget_def int_of_rval_def
      float_of_rval_def Let_def split: option.splits rval.splits)

lemma leaky_bucket_state_hmset:
  "leaky_bucket_state
     (hmset s (leaky_bucket_key uid) [(''requests'', IntV r), (''last_check'', FloatV l)]) uid t
   = Some (r, l)"
  by (simp add: leaky_bucket_state_def hmget_def hmset_def)

lemmas leaky_bucket_step_hmset = leaky_bucket_step [OF leaky_bucket_state_hmset]

text \<open>
  C5. With capacity 5 and leak rate 1, from absent state, five calls at instant 0 are
  allowed, a sixth at 0 is denied and a call at 5 is allowed. In general a call is denied
  exactly when the fill level after the leak is at least the capacity (then the store is
  left as it was); otherwise it is allowed and the level plus one is stored together with
  \<open>last_check = now\<close>.
\<close>

theorem leaky_bucket_ceiling:
  "(leaky_bucket_state s uid 0 = Some (0, 0) \<longrightarrow>
      fst (leaky_bucket_run s uid 5 1 [0, 0, 0, 0, 0, 0, 5]) =
        [Inr allowed, Inr allowed, Inr allowed, Inr allowed, Inr allowed,
         Inl too_many_requests, Inr allowed]) \<and>
   (\<forall>r l. leaky_bucket_state s uid t_first = Some (r, l) \<longrightarrow>
      (let level = max 0 (r - py_int ((now - l) * leak_rate));
           (out, s') = leaky_bucket_dependency s uid capacity leak_rate t_first now
       in (out = Inl too_many_requests \<longleftrightarrow> level \<ge> capacity) \<and>
          (level \<ge> capacity \<longrightarrow> s' = s) \<and>
          (level < capacity \<longrightarrow>
             out = Inr allowed \<and> leaky_bucket_state s' uid t' = Some (level + 1, now))))"
proof (intro conjI allI impI)
  assume a: "leaky_bucket_state s uid 0 = Some (0, 0)"
  show "fst (leaky_bucket_run s uid 5 1 [0, 0, 0, 0, 0, 0, 5]) =
        [Inr allowed, Inr allowed, Inr allowed, Inr allowed, Inr allowed,
         Inl too_many_requests, Inr allowed]"
    by (simp add: leaky_bucket_step[OF a] leaky_bucket_step_hmset py_int_def)
next
  fix r l assume a: "leaky_bucket_state s uid t_first = Some (r, l)"
  show "let level = max 0 (r - py_int ((now - l) * leak_rate));
           (out, s') = leaky_bucket_dependency s uid capacity leak_rate t_first now
       in (out = Inl too_many_requests \<longleftrightarrow> level \<ge> capacity) \<and>
          (level \<ge> capacity \<longrightarrow> s' = s) \<and>
          (level < capacity \<longrightarrow>
             out = Inr allowed \<and> leaky_bucket_state s' uid t' = Some (level + 1, now))"
    by (auto simp: leaky_bucket_step[OF a] leaky_bucket_state_hmset Let_def
        too_many_requests_def)
qed

theorem leaky_bucket_ceiling_witness:
  "leaky_bucket_state empty_store ''alice'' 0 = Some (0, 0) \<and>
   fst (leaky_bucket_run empty_store ''alice'' 5 1 [0, 0, 0, 0, 0, 0, 5]) =
        [Inr allowed, Inr allowed, Inr allowed, Inr allowed, Inr allowed,
         Inl too_many_requests, Inr allowed] \<and>
   fst (leaky_bucket_dependency empty_store ''alice'' 0 1 0 0) = Inl too_many_requests \<and>
   snd (leaky_bucket_dependency empty_store ''alice'' 0 1 0 0) = empty_store \<and>
   fst (leaky_bucket_dependency empty_store ''alice'' 5 1 0 0) = Inr allowed \<and>
   leaky_bucket_state (snd (leaky_bucket_dependency empty_store ''alice'' 5 1 0 0)) ''alice'' 9
     = Some (1, 0)"
proof -
  have st: "leaky_bucket_state empty_store ''alice'' 0 = Some (0, 0)"
    by (simp add: leaky_bucket_state_def hmget_def empty_store_def)
  note run = leaky_bucket_ceiling [of empty_store "''alice''" 0 0 1 0 9, THEN conjunct1, rule_format, OF st]
  note deny = leaky_bucket_ceiling [of empty_store "''alice''" 0 0 1 0 9, THEN conjunct2, rule_format, OF st]
  note allow = leaky_bucket_ceiling [of empty_store "''alice''" 0 0 1 5 9, THEN conjunct2, rule_format, OF st]
  from deny have d: "fst (leaky_bucket_dependency empty_store ''alice'' 0 1 0 0) = Inl too_many_requests \<and>
   snd (leaky_bucket_dependency empty_store ''alice'' 0 1 0 0) = empty_store"
    by (simp add: py_int_def Let_def split: prod.splits)
  from allow have a: "fst (leaky_bucket_dependency empty_store ''alice'' 5 1 0 0) = Inr allowed \<and>
   leaky_bucket_state (snd (leaky_bucket_dependency empty_store ''alice'' 5 1 0 0)) ''alice'' 9
     = Some (1, 0)"
    by (simp add: py_int_def Let_def split: prod.splits)
  from st run d a show ?thesis by simp
qed

section \<open>Token bucket\<close>

subsection \<open>One call\<close>

lemma token_bucket_step:
  assumes "token_bucket_state s uid m t_first = Some (t, l)"
  shows "token_bucket_dependency s uid m r t_first now =
     (if min m (t + py_int ((now - l) * real_of_int r)) \<le> 0 then (Inl too_many_requests, s)
      else (Inr allowed, hmset s (token_bucket_key uid)
              [(''tokens'', IntV (min m (t + py_int ((now - l) * real_of_int r)) - 1)),
               (''last_refill_time'', FloatV now)]))"
  using assms
  by (auto simp: token_bucket_state_def token_bucket_dependency_def hmget_def int_of_rval_def
      float_of_rval_def Let_def split: option.splits rval.splits)

lemma token_bucket_state_hmset:
  "token_bucket_state
     (hmset s (token_bucket_key uid) [(''tokens'', IntV t), (''last_refill_time'', FloatV l)]) uid m tf
   = Some (t, l)"
  by (simp add: token_bucket_state_def hmget_def hmset_def)

lemma py_int_nonneg: "0 \<le> x \<Longrightarrow> 0 \<le> py_int x"
  by (simp add: py_int_def)

lemma py_int_le_0_iff: "py_int x \<le> 0 \<longleftrightarrow> x < 1"
  by (auto simp: py_int_def floor_le_iff ceiling_le_iff)

lemma py_int_ge_1_iff: "1 \<le> py_int x \<longleftrightarrow> 1 \<le> x"
  using py_int_le_0_iff[of x] by linarith

lemma py_int_eq_0_iff: "py_int x = 0 \<longleftrightarrow> - 1 < x \<and> x < 1"
  by (auto simp: py_int_def floor_eq_iff ceiling_eq_iff)

lemma length_token_bucket_trace [simp]:
  "length (token_bucket_trace s uid m r calls) = length calls"
  by (induction calls arbitrary: s) (auto split: prod.splits)

lemma stored_state: "token_bucket_stored s uid = Some p \<Longrightarrow> token_bucket_state s uid m tf = Some p"
  by (auto simp: token_bucket_stored_def token_bucket_state_def split: option.splits rval.splits prod.splits)

lemma token_bucket_stored_hmset:
  "token_bucket_stored
     (hmset s (token_bucket_key uid) [(''tokens'', IntV t), (''last_refill_time'', FloatV l)]) uid
   = Some (t, l)"
  by (simp add: token_bucket_stored_def hmget_def hmset_def)

lemma token_bucket_state_absent:
  "hashes s (token_bucket_key uid) ''tokens'' = None \<Longrightarrow> token_bucket_state s uid m tf = Some (m, tf)"
  by (simp add: token_bucket_state_def hmget_def)

lemma token_bucket_trace_append:
  "token_bucket_trace s uid m r (xs @ ys) =
     token_bucket_trace s uid m r xs @
     token_bucket_trace (snd (last ((Inr allowed, s) # token_bucket_trace s uid m r xs))) uid m r ys"
  by (induction xs arbitrary: s) (auto split: prod.splits)

subsection \<open>Bounds on the stored tokens\<close>

text \<open>One call on a stored state within bounds, at a clock not before the stored time.\<close>

lemma token_bucket_call_stored:
  assumes st: "token_bucket_stored s uid = Some (t, l)" and b: "0 \<le> t" "t \<le> m"
    and clk: "l \<le> now" and r: "0 < r"
    and call: "token_bucket_dependency s uid m r tf now = (out, s')"
  shows "\<exists>t' l'. token_bucket_stored s' uid = Some (t', l') \<and> 0 \<le> t' \<and> t' \<le> m \<and> l' \<le> now \<and>
           0 \<le> py_int ((now - l) * real_of_int r) \<and> t' \<le> t + py_int ((now - l) * real_of_int r)"
proof -
  have nn: "0 \<le> py_int ((now - l) * real_of_int r)"
    using clk r by (intro py_int_nonneg) simp
  show ?thesis
  proof (cases "min m (t + py_int ((now - l) * real_of_int r)) \<le> 0")
    case True
    with call token_bucket_step[OF stored_state[OF st]] have "s' = s" by simp
    with st b nn clk show ?thesis by auto
  next
    case False
    with call token_bucket_step[OF stored_state[OF st]]
    have "s' = hmset s (token_bucket_key uid)
              [(''tokens'', IntV (min m (t + py_int ((now - l) * real_of_int r)) - 1)),
               (''last_refill_time'', FloatV now)]" by simp
    then have "token_bucket_stored s' uid = Some (min m (t + py_int ((now - l) * real_of_int r)) - 1, now)"
      by (simp add: token_bucket_stored_hmset)
    with False nn show ?thesis by auto
  qed
qed

text \<open>One call on any state the invariant allows.\<close>

lemma token_bucket_call_inv:
  assumes init: "hashes s (token_bucket_key uid) ''tokens'' = None \<and> tf \<le> now \<or>
      (\<exists>t l. token_bucket_stored s uid = Some (t, l) \<and> 0 \<le> t \<and> t \<le> m \<and> l \<le> now)"
    and m: "0 < m" and r: "0 < r"
    and call: "token_bucket_dependency s uid m r tf now = (out, s')"
  shows "\<exists>t l t' l'. token_bucket_state s uid m tf = Some (t, l) \<and>
           token_bucket_stored s' uid = Some (t', l') \<and> 0 \<le> t' \<and> t' \<le> m \<and> l' \<le> now \<and>
           0 \<le> py_int ((now - l) * real_of_int r) \<and> t' \<le> t + py_int ((now - l) * real_of_int r)"
  using init
proof (elim disjE conjE exE)
  assume a: "hashes s (token_bucket_key uid) ''tokens'' = None" and clk: "tf \<le> now"
  have nn: "0 \<le> py_int ((now - tf) * real_of_int r)"
    using clk r by (intro py_int_nonneg) simp
  then have "\<not> min m (m + py_int ((now - tf) * real_of_int r)) \<le> 0" using m by auto
  with call token_bucket_step[OF token_bucket_state_absent[OF a]]
  have "s' = hmset s (token_bucket_key uid)
              [(''tokens'', IntV (min m (m + py_int ((now - tf) * real_of_int r)) - 1)),
               (''last_refill_time'', FloatV now)]" by simp
  then have "token_bucket_stored s' uid = Some (min m (m + py_int ((now - tf) * real_of_int r)) - 1, now)"
    by (simp add: token_bucket_stored_hmset)
  with nn m token_bucket_state_absent[OF a] show ?thesis by auto
next
  fix t l
  assume st: "token_bucket_stored s uid = Some (t, l)" and b: "0 \<le> t" "t \<le> m" "l \<le> now"
  from token_bucket_call_stored[OF st b r call] stored_state[OF st]
  show ?thesis by blast
qed

lemma token_bucket_trace_inv:
  assumes m: "0 < m" and r: "0 < r"
  shows "sorted (T # clock_reads calls) \<Longrightarrow>
    hashes s (token_bucket_key uid) ''tokens'' = None \<or>
      (\<exists>t l. token_bucket_stored s uid = Some (t, l) \<and> 0 \<le> t \<and> t \<le> m \<and> l \<le> T) \<Longrightarrow>
    i < length calls \<Longrightarrow>
    \<exists>t l t' l'.
      token_bucket_state ((s # map snd (token_bucket_trace s uid m r calls)) ! i) uid m (fst (calls ! i))
        = Some (t, l) \<and>
      token_bucket_stored (snd (token_bucket_trace s uid m r calls ! i)) uid = Some (t', l') \<and>
      0 \<le> t' \<and> t' \<le> m \<and>
      0 \<le> py_int ((snd (calls ! i) - l) * real_of_int r) \<and>
      t' \<le> t + py_int ((snd (calls ! i) - l) * real_of_int r)"
proof (induction calls arbitrary: s T i)
  case Nil
  then show ?case by simp
next
  case (Cons c calls)
  obtain tf now where c: "c = (tf, now)" by (cases c)
  obtain out s' where call: "token_bucket_dependency s uid m r tf now = (out, s')"
    by (cases "token_bucket_dependency s uid m r tf now")
  from Cons.prems(1) c have clk: "T \<le> tf" "tf \<le> now" "sorted (now # clock_reads calls)"
    by auto
  from Cons.prems(2) clk have init:
    "hashes s (token_bucket_key uid) ''tokens'' = None \<and> tf \<le> now \<or>
      (\<exists>t l. token_bucket_stored s uid = Some (t, l) \<and> 0 \<le> t \<and> t \<le> m \<and> l \<le> now)"
    by force
  from token_bucket_call_inv[OF init m r call]
  obtain t l t' l' where first: "token_bucket_state s uid m tf = Some (t, l)"
      "token_bucket_stored s' uid = Some (t', l')" "0 \<le> t'" "t' \<le> m" "l' \<le> now"
      "0 \<le> py_int ((now - l) * real_of_int r)" "t' \<le> t + py_int ((now - l) * real_of_int r)"
    by blast
  show ?case
  proof (cases i)
    case 0
    with first c call show ?thesis by simp
  next
    case (Suc j)
    with Cons.prems(3) have j: "j < length calls" by simp
    have init': "hashes s' (token_bucket_key uid) ''tokens'' = None \<or>
      (\<exists>t l. token_bucket_stored s' uid = Some (t, l) \<and> 0 \<le> t \<and> t \<le> m \<and> l \<le> now)"
      using first by blast
    from Cons.IH[OF clk(3) init' j] Suc c call show ?thesis by simp
  qed
qed

text \<open>
  C3. For calls of one identity with \<open>max_tokens > 0\<close> and \<open>refill_rate > 0\<close>, made
  from absent state with clock values that never decrease: after every call a token count
  \<open>t'\<close> is stored with \<open>0 \<le> t' \<le> max_tokens\<close>; the refill term of the call,
  \<open>int((now - last_refill_time) * refill_rate)\<close>, is not negative, and \<open>t'\<close> exceeds
  the count \<open>t\<close> the call started from by no more than that term (so without a refill the
  count does not grow).
\<close>

theorem token_bucket_bounded:
  assumes "0 < max_tokens" and "0 < refill_rate"
    and "hashes s (token_bucket_key uid) ''tokens'' = None"
    and "sorted (clock_reads calls)"
  shows "\<forall>i < length calls. \<exists>t l t' l'.
      token_bucket_state ((s # map snd (token_bucket_trace s uid max_tokens refill_rate calls)) ! i)
          uid max_tokens (fst (calls ! i)) = Some (t, l) \<and>
      token_bucket_stored (snd (token_bucket_trace s uid max_tokens refill_rate calls ! i)) uid
        = Some (t', l') \<and>
      0 \<le> t' \<and> t' \<le> max_tokens \<and>
      0 \<le> py_int ((snd (calls ! i) - l) * real_of_int refill_rate) \<and>
      t' \<le> t + py_int ((snd (calls ! i) - l) * real_of_int refill_rate)"
proof (intro allI impI)
  fix i assume i: "i < length calls"
  have srt: "sorted (hd (clock_reads calls) # clock_reads calls)"
    using assms(4) i by (cases calls) auto
  show "\<exists>t l t' l'.
      token_bucket_state ((s # map snd (token_bucket_trace s uid max_tokens refill_rate calls)) ! i)
          uid max_tokens (fst (calls ! i)) = Some (t, l) \<and>
      token_bucket_stored (snd (token_bucket_trace s uid max_tokens refill_rate calls ! i)) uid
        = Some (t', l') \<and>
      0 \<le> t' \<and> t' \<le> max_tokens \<and>
      0 \<le> py_int ((snd (calls ! i) - l) * real_of_int refill_rate) \<and>
      t' \<le> t + py_int ((snd (calls ! i) - l) * real_of_int refill_rate)"
    by (rule token_bucket_trace_inv[OF assms(1,2) srt disjI1[OF assms(3)] i])
qed

theorem token_bucket_bounded_witness:
  "(0::int) < 2 \<and> (0::int) < 1 \<and>
   hashes empty_store (token_bucket_key ''alice'') ''tokens'' = None \<and>
   sorted (clock_reads [(0, 0), (0, 0), (0, 0), (3/2, 3/2)]) \<and>
   token_bucket_stored
     (snd (token_bucket_trace empty_store ''alice'' 2 1 [(0, 0), (0, 0), (0, 0), (3/2, 3/2)] ! 3))
     ''alice'' = Some (0, 3/2) \<and>
   (0::int) \<le> 0 \<and> (0::int) \<le> 2"
proof -
  have h1: "(0::int) < 2" and h2: "(0::int) < 1" by simp_all
  have h3: "hashes empty_store (token_bucket_key ''alice'') ''tokens'' = None"
    by (simp add: empty_store_def)
  have h4: "sorted (clock_reads [(0, 0), (0, 0), (0, 0), (3/2, 3/2)])" by simp
  have ev: "token_bucket_stored
     (snd (token_bucket_trace empty_store ''alice'' 2 1 [(0, 0), (0, 0), (0, 0), (3/2, 3/2)] ! 3))
     ''alice'' = Some (0, 3/2)"
    by code_simp
  from token_bucket_bounded[OF h1 h2 h3 h4] have
    "\<exists>t' l'. token_bucket_stored
     (snd (token_bucket_trace empty_store ''alice'' 2 1 [(0, 0), (0, 0), (0, 0), (3/2, 3/2)] ! 3))
     ''alice'' = Some (t', l') \<and> 0 \<le> t' \<and> t' \<le> 2"
    by (auto dest!: spec[where x = 3])
  with ev have "(0::int) \<le> 0 \<and> (0::int) \<le> 2" by simp
  with h1 h2 h3 h4 ev show ?thesis by simp
qed

subsection \<open>Refill and polling\<close>

lemma token_bucket_exhausted_polls:
  assumes st: "token_bucket_stored s uid = Some (0, l)"
    and polls: "\<forall>c \<in> set calls. (snd c - l) * real_of_int r < 1"
  shows "token_bucket_trace s uid m r calls = map (\<lambda>c. (Inl too_many_requests, s)) calls"
  using polls
proof (induction calls)
  case Nil
  then show ?case by simp
next
  case (Cons c calls)
  obtain tf now where c: "c = (tf, now)" by (cases c)
  from Cons.prems c have "py_int ((now - l) * real_of_int r) \<le> 0"
    by (simp add: py_int_le_0_iff)
  then have "min m (0 + py_int ((now - l) * real_of_int r)) \<le> 0" by simp
  then have "token_bucket_dependency s uid m r tf now = (Inl too_many_requests, s)"
    using token_bucket_step[where r=r and now=now and t_first=tf and m=m, OF stored_state[OF st]] by simp
  with Cons c show ?case by simp
qed

text \<open>
  C9, as amended. The refill is truncated to whole tokens: a call on stored state
  \<open>(t, l)\<close> works with \<open>min(max_tokens, t + int((now - l) * refill_rate))\<close> tokens. Only
  an allowed call stores the new count and \<open>last_refill_time = now\<close>; a denied call
  leaves the store as it was, so \<open>l\<close> stays the time of the last allowed call. Hence, once
  the bucket is exhausted (\<open>t = 0\<close>), every call with \<open>(now - l) * refill_rate < 1\<close> is
  denied, and the first call with \<open>(now - l) * refill_rate \<ge> 1\<close> is allowed, however many
  denied calls came in between.
\<close>

theorem token_bucket_refill_from_last_allowed:
  assumes st: "token_bucket_stored s uid = Some (t, l)"
  shows "(let add = py_int ((now - l) * real_of_int r);
              (out, s') = token_bucket_dependency s uid m r tf now
          in (min m (t + add) \<le> 0 \<longrightarrow> out = Inl too_many_requests \<and> s' = s) \<and>
             (0 < min m (t + add) \<longrightarrow>
                out = Inr allowed \<and> token_bucket_stored s' uid = Some (min m (t + add) - 1, now))) \<and>
         (t = 0 \<and> 0 < m \<and> (\<forall>c \<in> set polls. (snd c - l) * real_of_int r < 1) \<and>
          1 \<le> (now - l) * real_of_int r \<longrightarrow>
            token_bucket_trace s uid m r polls = map (\<lambda>c. (Inl too_many_requests, s)) polls \<and>
            fst (last (token_bucket_trace s uid m r (polls @ [(tf, now)]))) = Inr allowed)"
proof (intro conjI impI)
  show "let add = py_int ((now - l) * real_of_int r);
              (out, s') = token_bucket_dependency s uid m r tf now
          in (min m (t + add) \<le> 0 \<longrightarrow> out = Inl too_many_requests \<and> s' = s) \<and>
             (0 < min m (t + add) \<longrightarrow>
                out = Inr allowed \<and> token_bucket_stored s' uid = Some (min m (t + add) - 1, now))"
    by (auto simp: Let_def token_bucket_step[OF stored_state[OF st]] token_bucket_stored_hmset)
next
  assume a: "t = 0 \<and> 0 < m \<and> (\<forall>c \<in> set polls. (snd c - l) * real_of_int r < 1) \<and>
          1 \<le> (now - l) * real_of_int r"
  from a st have st0: "token_bucket_stored s uid = Some (0, l)" by simp
  from a have polls: "\<forall>c \<in> set polls. (snd c - l) * real_of_int r < 1" by simp
  show denied: "token_bucket_trace s uid m r polls = map (\<lambda>c. (Inl too_many_requests, s)) polls"
    by (rule token_bucket_exhausted_polls[OF st0 polls])
  have same: "snd (last ((Inr allowed, s) # token_bucket_trace s uid m r polls)) = s"
    unfolding denied by (cases polls rule: rev_cases) simp_all
  from a have "1 \<le> py_int ((now - l) * real_of_int r)" by (simp add: py_int_ge_1_iff)
  moreover from a have "0 < m" by simp
  ultimately have "\<not> min m (0 + py_int ((now - l) * real_of_int r)) \<le> 0" by linarith
  then have "fst (token_bucket_dependency s uid m r tf now) = Inr allowed"
    using token_bucket_step[where r=r and now=now and t_first=tf and m=m, OF stored_state[OF st0]]
    by simp
  moreover have "token_bucket_trace s uid m r (polls @ [(tf, now)]) =
      token_bucket_trace s uid m r polls @ token_bucket_trace s uid m r [(tf, now)]"
    by (subst token_bucket_trace_append) (simp only: same)
  ultimately show "fst (last (token_bucket_trace s uid m r (polls @ [(tf, now)]))) = Inr allowed"
    by (simp split: prod.splits)
qed

theorem token_bucket_refill_from_last_allowed_witness:
  "token_bucket_stored exhausted_store ''alice'' = Some (0, 0) \<and>
   token_bucket_dependency exhausted_store ''alice'' 1 1 (1/2) (1/2)
     = (Inl too_many_requests, exhausted_store) \<and>
   fst (token_bucket_dependency exhausted_store ''alice'' 1 1 1 1) = Inr allowed \<and>
   token_bucket_stored (snd (token_bucket_dependency exhausted_store ''alice'' 1 1 1 1)) ''alice''
     = Some (0, 1) \<and>
   token_bucket_trace exhausted_store ''alice'' 1 1 [(1/2, 1/2), (9/10, 9/10)]
     = [(Inl too_many_requests, exhausted_store), (Inl too_many_requests, exhausted_store)] \<and>
   fst (last (token_bucket_trace exhausted_store ''alice'' 1 1 [(1/2, 1/2), (9/10, 9/10), (1, 1)]))
     = Inr allowed"
proof -
  have st: "token_bucket_stored exhausted_store ''alice'' = Some (0, 0)"
    by (simp add: exhausted_store_def token_bucket_stored_hmset)
  note thm1 = token_bucket_refill_from_last_allowed
    [OF st, where now = "1/2" and r = 1 and m = 1 and tf = "1/2" and polls = "[]", THEN conjunct1]
  note thm2 = token_bucket_refill_from_last_allowed
    [OF st, where now = 1 and r = 1 and m = 1 and tf = 1 and polls = "[(1/2, 1/2), (9/10, 9/10)]"]
  have d: "token_bucket_dependency exhausted_store ''alice'' 1 1 (1/2) (1/2)
     = (Inl too_many_requests, exhausted_store)"
    using thm1 by (simp add: py_int_def Let_def split: prod.splits)
  have a: "fst (token_bucket_dependency exhausted_store ''alice'' 1 1 1 1) = Inr allowed \<and>
   token_bucket_stored (snd (token_bucket_dependency exhausted_store ''alice'' 1 1 1 1)) ''alice''
     = Some (0, 1)"
    using thm2[THEN conjunct1] by (simp add: py_int_def Let_def split: prod.splits)
  have p: "token_bucket_trace exhausted_store ''alice'' 1 1 [(1/2, 1/2), (9/10, 9/10)]
     = [(Inl too_many_requests, exhausted_store), (Inl too_many_requests, exhausted_store)] \<and>
   fst (last (token_bucket_trace exhausted_store ''alice'' 1 1 [(1/2, 1/2), (9/10, 9/10), (1, 1)]))
     = Inr allowed"
    using thm2[THEN conjunct2] by simp
  from st d a p show ?thesis by simp
qed

text \<open>
  C9 as stated fails: with \<open>max_tokens = 1\<close> and \<open>refill_rate = 1\<close>, calls at 0, 1/2 and
  1 have gaps of 1/2 each, and the third call is allowed.
\<close>

theorem token_bucket_fast_polling_counterexample:
  "(1/2 - 0) * real_of_int 1 < 1 \<and> (1 - 1/2) * real_of_int 1 < 1 \<and>
   map fst (token_bucket_trace empty_store ''alice'' 1 1 [(0, 0), (1/2, 1/2), (1, 1)])
     = [Inr allowed, Inl too_many_requests, Inr allowed]"
  by code_simp

section \<open>Clock regression\<close>

text \<open>
  C7, as amended. When \<open>now\<close> is earlier than the stored timestamp \<open>l\<close>, the elapsed
  time is used as it is. For a positive rate the delta \<open>int((now - l) * rate)\<close> is at most
  0, and it is 0 exactly when \<open>(l - now) * rate < 1\<close>. The token bucket goes on with
  \<open>min(max_tokens, t + delta)\<close> tokens and an allowed call stores that count minus one;
  the leaky bucket goes on with the level \<open>max(0, q - delta)\<close> and an allowed call stores
  that level plus one. A denied call leaves the store as it was.
\<close>

theorem clock_regression_not_clamped:
  "(token_bucket_stored s uid = Some (t, l) \<and> now < l \<and> 0 < r \<longrightarrow>
      (let delta = py_int ((now - l) * real_of_int r);
           (out, s') = token_bucket_dependency s uid m r tf now
       in delta \<le> 0 \<and> (delta = 0 \<longleftrightarrow> (l - now) * real_of_int r < 1) \<and>
          (min m (t + delta) \<le> 0 \<longrightarrow> out = Inl too_many_requests \<and> s' = s) \<and>
          (0 < min m (t + delta) \<longrightarrow>
             out = Inr allowed \<and>
             token_bucket_stored s' uid = Some (min m (t + delta) - 1, now)))) \<and>
   (leaky_bucket_state s uid tf = Some (q, l) \<and> now < l \<and> 0 < leak_rate \<longrightarrow>
      (let delta = py_int ((now - l) * leak_rate);
           (out, s') = leaky_bucket_dependency s uid capacity leak_rate tf now
       in delta \<le> 0 \<and> (delta = 0 \<longleftrightarrow> (l - now) * leak_rate < 1) \<and>
          (capacity \<le> max 0 (q - delta) \<longrightarrow> out = Inl too_many_requests \<and> s' = s) \<and>
          (max 0 (q - delta) < capacity \<longrightarrow>
             out = Inr allowed \<and>
             leaky_bucket_state s' uid tf = Some (max 0 (q - delta) + 1, now))))"
proof (intro conjI impI)
  assume a: "token_bucket_stored s uid = Some (t, l) \<and> now < l \<and> 0 < r"
  then have st: "token_bucket_stored s uid = Some (t, l)" by simp
  from a have neg: "(now - l) * real_of_int r < 0"
    by (simp add: mult_less_0_iff)
  have d1: "py_int ((now - l) * real_of_int r) \<le> 0"
    using neg by (simp add: py_int_le_0_iff)
  have d2: "py_int ((now - l) * real_of_int r) = 0 \<longleftrightarrow> (l - now) * real_of_int r < 1"
    using neg by (simp add: py_int_eq_0_iff algebra_simps)
  show "let delta = py_int ((now - l) * real_of_int r);
           (out, s') = token_bucket_dependency s uid m r tf now
       in delta \<le> 0 \<and> (delta = 0 \<longleftrightarrow> (l - now) * real_of_int r < 1) \<and>
          (min m (t + delta) \<le> 0 \<longrightarrow> out = Inl too_many_requests \<and> s' = s) \<and>
          (0 < min m (t + delta) \<longrightarrow>
             out = Inr allowed \<and>
             token_bucket_stored s' uid = Some (min m (t + delta) - 1, now))"
    using d1 d2
    by (auto simp: Let_def token_bucket_step[OF stored_state[OF st]] token_bucket_stored_hmset)
next
  assume a: "leaky_bucket_state s uid tf = Some (q, l) \<and> now < l \<and> 0 < leak_rate"
  then have st: "leaky_bucket_state s uid tf = Some (q, l)" by simp
  from a have neg: "(now - l) * leak_rate < 0"
    by (simp add: mult_less_0_iff)
  have d1: "py_int ((now - l) * leak_rate) \<le> 0"
    using neg by (simp add: py_int_le_0_iff)
  have d2: "py_int ((now - l) * leak_rate) = 0 \<longleftrightarrow> (l - now) * leak_rate < 1"
    using neg by (simp add: py_int_eq_0_iff algebra_simps)
  show "let delta = py_int ((now - l) * leak_rate);
           (out, s') = leaky_bucket_dependency s uid capacity leak_rate tf now
       in delta \<le> 0 \<and> (delta = 0 \<longleftrightarrow> (l - now) * leak_rate < 1) \<and>
          (capacity \<le> max 0 (q - delta) \<longrightarrow> out = Inl too_many_requests \<and> s' = s) \<and>
          (max 0 (q - delta) < capacity \<longrightarrow>
             out = Inr allowed \<and>
             leaky_bucket_state s' uid tf = Some (max 0 (q - delta) + 1, now))"
    using d1 d2
    by (auto simp: Let_def leaky_bucket_step[OF st] leaky_bucket_state_hmset)
qed

theorem clock_regression_not_clamped_witness:
  "token_bucket_stored regressed_token_store ''alice'' = Some (8, 100) \<and> (97::real) < 100 \<and>
   (0::int) < 1 \<and> py_int ((97 - 100) * real_of_int 1) = - 3 \<and>
   fst (token_bucket_dependency regressed_token_store ''alice'' 10 1 97 97) = Inr allowed \<and>
   token_bucket_stored (snd (token_bucket_dependency regressed_token_store ''alice'' 10 1 97 97))
     ''alice'' = Some (4, 97) \<and>
   leaky_bucket_state regressed_leaky_store ''alice'' 97 = Some (2, 100) \<and> (0::real) < 1 \<and>
   fst (leaky_bucket_dependency regressed_leaky_store ''alice'' 10 1 97 97) = Inr allowed \<and>
   leaky_bucket_state (snd (leaky_bucket_dependency regressed_leaky_store ''alice'' 10 1 97 97))
     ''alice'' 97 = Some (6, 97)"
proof -
  have st: "token_bucket_stored regressed_token_store ''alice'' = Some (8, 100)"
    by (simp add: regressed_token_store_def token_bucket_stored_hmset)
  have sl: "leaky_bucket_state regressed_leaky_store ''alice'' 97 = Some (2, 100)"
    by (simp add: regressed_leaky_store_def leaky_bucket_state_hmset)
  have d: "py_int ((97 - 100) * real_of_int 1) = - 3"
    by (simp add: py_int_def)
  note tb = clock_regression_not_clamped
    [where s = regressed_token_store and uid = "''alice''" and t = 8 and l = 100 and now = 97
       and r = 1 and m = 10 and tf = 97, THEN conjunct1, rule_format]
  note lb = clock_regression_not_clamped
    [where s = regressed_leaky_store and uid = "''alice''" and q = 2 and l = 100 and now = 97
       and leak_rate = 1 and capacity = 10 and tf = 97, THEN conjunct2, rule_format]
  have a: "fst (token_bucket_dependency regressed_token_store ''alice'' 10 1 97 97) = Inr allowed \<and>
   token_bucket_stored (snd (token_bucket_dependency regressed_token_store ''alice'' 10 1 97 97))
     ''alice'' = Some (4, 97)"
    using tb st by (simp add: py_int_def Let_def split: prod.splits)
  have b: "fst (leaky_bucket_dependency regressed_leaky_store ''alice'' 10 1 97 97) = Inr allowed \<and>
   leaky_bucket_state (snd (leaky_bucket_dependency regressed_leaky_store ''alice'' 10 1 97 97))
     ''alice'' 97 = Some (6, 97)"
    using lb sl by (simp add: py_int_def Let_def split: prod.splits)
  from st sl d a b show ?thesis by simp
qed

text \<open>
  C7 as stated fails: after two calls at 100 the token count is 8 and the fill level 2; a
  call at 97 then stores 4 tokens (four less, one of them consumed) and the level 6 (four
  more, one of them added).
\<close>

theorem clock_regression_counterexample:
  "token_bucket_stored
     (snd (token_bucket_trace empty_store ''alice'' 10 1 [(100, 100), (100, 100)] ! 1)) ''alice''
     = Some (8, 100) \<and>
   fst (token_bucket_trace empty_store ''alice'' 10 1 [(100, 100), (100, 100), (97, 97)] ! 2)
     = Inr allowed \<and>
   token_bucket_stored
     (snd (token_bucket_trace empty_store ''alice'' 10 1 [(100, 100), (100, 100), (97, 97)] ! 2))
     ''alice'' = Some (4, 97) \<and>
   leaky_bucket_state (snd (leaky_bucket_run empty_store ''alice'' 10 1 [100, 100])) ''alice'' 0
     = Some (2, 100) \<and>
   fst (leaky_bucket_run empty_store ''alice'' 10 1 [100, 100, 97]) ! 2 = Inr allowed \<and>
   leaky_bucket_state (snd (leaky_bucket_run empty_store ''alice'' 10 1 [100, 100, 97])) ''alice'' 0
     = Some (6, 97)"
  by code_simp

section \<open>Sliding window log\<close>

lemma zsets_zremrangebyscore:
  "zsets (zremrangebyscore s key 0 (now - real_of_int w)) key = purged now w (zsets s key)"
  by (auto simp: zremrangebyscore_def purged_def intro!: filter_cong)

lemma sliding_window_log_step:
  "sliding_window_log_dependency s uid m w now =
     (if m \<le> int (length (purged now w (zsets s (sliding_window_log_key uid))))
      then (Inl too_many_requests, zremrangebyscore s (sliding_window_log_key uid) 0 (now - real_of_int w))
      else (Inr allowed, zadd (zremrangebyscore s (sliding_window_log_key uid) 0 (now - real_of_int w))
                            (sliding_window_log_key uid) now now))"
  by (simp add: sliding_window_log_dependency_def Let_def zcard_def zsets_zremrangebyscore)

lemma zsets_zadd: "zsets (zadd s key m sc) key = AList.update m sc (zsets s key)"
  by (simp add: zadd_def)

lemma purged_idem: "purged now w (purged now w z) = purged now w z"
  by (simp add: purged_def)

lemma zremrangebyscore_idem:
  "zremrangebyscore (zremrangebyscore s key lo hi) key lo hi = zremrangebyscore s key lo hi"
  by (simp add: zremrangebyscore_def)

lemma filter_update_kept:
  "\<forall>e \<in> set z. P e \<Longrightarrow> P (k, v) \<Longrightarrow> filter P (AList.update k v z) = AList.update k v z"
  by (induction z) auto

lemma purged_update_now:
  assumes "0 < w"
  shows "purged now w (AList.update now now (purged now w z)) = AList.update now now (purged now w z)"
  unfolding purged_def using assms
  by (intro filter_update_kept) auto

lemma distinct_purged: "distinct (map fst z) \<Longrightarrow> distinct (map fst (purged now w z))"
  by (simp add: purged_def distinct_map_filter)

lemma set_update_subset: "set (AList.update k v z) \<subseteq> insert (k, v) (set z)"
  by (induction z) auto

lemma set_purged:
  "set (purged now w z) = {e \<in> set z. snd e < 0 \<or> now - real_of_int w < snd e}"
  by (auto simp: purged_def)

lemma sliding_window_log_call_fresh:
  assumes inv: "\<forall>e \<in> set (zsets s (sliding_window_log_key uid)). fst e = snd e \<and> 0 \<le> snd e \<and> snd e \<le> T"
    and clk: "0 \<le> T" "T \<le> now" and w: "0 < w"
  shows "\<forall>e \<in> set (zsets (snd (sliding_window_log_dependency s uid m w now))
                               (sliding_window_log_key uid)).
           fst e = snd e \<and> 0 \<le> snd e \<and> now - real_of_int w < snd e \<and> snd e \<le> now"
proof
  fix e
  assume e: "e \<in> set (zsets (snd (sliding_window_log_dependency s uid m w now))
                               (sliding_window_log_key uid))"
  let ?kept = "purged now w (zsets s (sliding_window_log_key uid))"
  have "zsets (snd (sliding_window_log_dependency s uid m w now)) (sliding_window_log_key uid) = ?kept
      \<or> zsets (snd (sliding_window_log_dependency s uid m w now)) (sliding_window_log_key uid)
          = AList.update now now ?kept"
    by (simp add: sliding_window_log_step zsets_zadd zsets_zremrangebyscore)
  with e set_update_subset[of now now ?kept] have "e = (now, now) \<or> e \<in> set ?kept"
    by auto
  then show "fst e = snd e \<and> 0 \<le> snd e \<and> now - real_of_int w < snd e \<and> snd e \<le> now"
  proof
    assume "e = (now, now)"
    with clk w show ?thesis by simp
  next
    assume "e \<in> set ?kept"
    then have in_s: "e \<in> set (zsets s (sliding_window_log_key uid))"
      and k: "snd e < 0 \<or> now - real_of_int w < snd e"
      by (simp_all add: set_purged)
    from inv in_s have "fst e = snd e" "0 \<le> snd e" "snd e \<le> T" by auto
    with k clk show ?thesis by linarith
  qed
qed

lemma snd_sliding_window_log_run_Cons:
  "snd (sliding_window_log_run s uid ((m, w, now) # calls)) =
   snd (sliding_window_log_run (snd (sliding_window_log_dependency s uid m w now)) uid calls)"
  by (simp add: split_beta)

lemma sliding_window_log_run_fresh:
  "calls \<noteq> [] \<Longrightarrow> 0 \<le> T \<Longrightarrow> sorted (T # map (\<lambda>c. snd (snd c)) calls) \<Longrightarrow>
   \<forall>c \<in> set calls. 0 < fst (snd c) \<Longrightarrow>
   \<forall>e \<in> set (zsets s (sliding_window_log_key uid)). fst e = snd e \<and> 0 \<le> snd e \<and> snd e \<le> T \<Longrightarrow>
   \<forall>e \<in> set (zsets (snd (sliding_window_log_run s uid calls)) (sliding_window_log_key uid)).
      fst e = snd e \<and> snd (snd (last calls)) - real_of_int (fst (snd (last calls))) < snd e \<and>
      snd e \<le> snd (snd (last calls))"
proof (induction calls arbitrary: s T)
  case Nil
  then show ?case by simp
next
  case (Cons c calls)
  obtain m w now where c: "c = (m, w, now)" by (cases c)
  from Cons.prems(3,4) c have clk: "T \<le> now" and w: "0 < w" by simp_all
  note step = sliding_window_log_call_fresh[OF Cons.prems(5) Cons.prems(2) clk w, of m]
  note run = snd_sliding_window_log_run_Cons[of s uid m w now calls]
  show ?case
  proof (cases "calls = []")
    case True
    with step show ?thesis unfolding c run by simp
  next
    case False
    have inv': "\<forall>e \<in> set (zsets (snd (sliding_window_log_dependency s uid m w now))
                               (sliding_window_log_key uid)). fst e = snd e \<and> 0 \<le> snd e \<and> snd e \<le> now"
      using step by simp
    have now0: "0 \<le> now" using Cons.prems(2) clk by simp
    have srt: "sorted (now # map (\<lambda>c. snd (snd c)) calls)" using Cons.prems(3) c by simp
    have ws: "\<forall>c \<in> set calls. 0 < fst (snd c)" using Cons.prems(4) by simp
    from Cons.IH[OF False now0 srt ws inv'] False show ?thesis
      unfolding c run by simp
  qed
qed

text \<open>
  C4, as amended. The purge before counting removes exactly the entries whose score lies in
  the closed range from 0 to \<open>now - window_seconds\<close>: an entry with a non-negative
  timestamp equal to \<open>now - window_seconds\<close> is removed and not counted. The call is
  denied exactly when \<open>max_requests\<close> is at most the number of entries left, and otherwise
  adds the entry \<open>now\<close>. For calls made from an empty log at non-negative instants that
  never decrease, with positive windows, every timestamp left after a call lies in the
  half-open interval from \<open>now - window_seconds\<close> (excluded) to \<open>now\<close> (included).
\<close>

theorem sliding_window_log_purge:
  "(let key = sliding_window_log_key uid;
        kept = purged now w (zsets s key);
        (out, s') = sliding_window_log_dependency s uid m w now
    in (\<forall>e. e \<in> set kept \<longleftrightarrow>
              e \<in> set (zsets s key) \<and> (snd e < 0 \<or> now - real_of_int w < snd e)) \<and>
       (out = Inl too_many_requests \<longleftrightarrow> m \<le> int (length kept)) \<and>
       (m \<le> int (length kept) \<longrightarrow> zsets s' key = kept) \<and>
       (int (length kept) < m \<longrightarrow> out = Inr allowed \<and> zsets s' key = AList.update now now kept)) \<and>
   (zsets s (sliding_window_log_key uid) = [] \<and> calls \<noteq> [] \<and>
    sorted (0 # map (\<lambda>c. snd (snd c)) calls) \<and> (\<forall>c \<in> set calls. 0 < fst (snd c)) \<longrightarrow>
      (\<forall>e \<in> set (zsets (snd (sliding_window_log_run s uid calls)) (sliding_window_log_key uid)).
         fst e = snd e \<and> snd (snd (last calls)) - real_of_int (fst (snd (last calls))) < snd e \<and>
         snd e \<le> snd (snd (last calls))))"
proof (intro conjI impI)
  show "let key = sliding_window_log_key uid;
        kept = purged now w (zsets s key);
        (out, s') = sliding_window_log_dependency s uid m w now
    in (\<forall>e. e \<in> set kept \<longleftrightarrow>
              e \<in> set (zsets s key) \<and> (snd e < 0 \<or> now - real_of_int w < snd e)) \<and>
       (out = Inl too_many_requests \<longleftrightarrow> m \<le> int (length kept)) \<and>
       (m \<le> int (length kept) \<longrightarrow> zsets s' key = kept) \<and>
       (int (length kept) < m \<longrightarrow> out = Inr allowed \<and> zsets s' key = AList.update now now kept)"
    by (simp add: Let_def sliding_window_log_step zsets_zadd zsets_zremrangebyscore set_purged)
next
  assume a: "zsets s (sliding_window_log_key uid) = [] \<and> calls \<noteq> [] \<and>
    sorted (0 # map (\<lambda>c. snd (snd c)) calls) \<and> (\<forall>c \<in> set calls. 0 < fst (snd c))"
  then have inv: "\<forall>e \<in> set (zsets s (sliding_window_log_key uid)).
      fst e = snd e \<and> 0 \<le> snd e \<and> snd e \<le> 0"
    by simp
  from a have ne: "calls \<noteq> []" and srt: "sorted (0 # map (\<lambda>c. snd (snd c)) calls)"
    and ws: "\<forall>c \<in> set calls. 0 < fst (snd c)" by simp_all
  show "\<forall>e \<in> set (zsets (snd (sliding_window_log_run s uid calls)) (sliding_window_log_key uid)).
         fst e = snd e \<and> snd (snd (last calls)) - real_of_int (fst (snd (last calls))) < snd e \<and>
         snd e \<le> snd (snd (last calls))"
    by (rule sliding_window_log_run_fresh[OF ne order_refl srt ws inv])
qed

theorem sliding_window_log_purge_witness:
  "zsets (snd (sliding_window_log_run empty_store ''alice'' [(1, 10, 0)]))
     (sliding_window_log_key ''alice'') = [(0, 0)] \<and>
   purged 10 10 [(0, 0)] = [] \<and>
   fst (sliding_window_log_dependency
          (snd (sliding_window_log_run empty_store ''alice'' [(1, 10, 0)])) ''alice'' 1 10 10)
     = Inr allowed \<and>
   zsets empty_store (sliding_window_log_key ''alice'') = [] \<and>
   sorted (0 # map (\<lambda>c. snd (snd c)) [(3, 10, 0), (3, 10, 2), (3, 10, 11 :: real)]) \<and>
   zsets (snd (sliding_window_log_run empty_store ''alice'' [(3, 10, 0), (3, 10, 2), (3, 10, 11)]))
     (sliding_window_log_key ''alice'') = [(2, 2), (11, 11)] \<and>
   (11::real) - real_of_int 10 < 2 \<and> (2::real) \<le> 11"
proof -
  have z1: "zsets (snd (sliding_window_log_run empty_store ''alice'' [(1, 10, 0)]))
     (sliding_window_log_key ''alice'') = [(0, 0)]"
    by code_simp
  have p: "purged 10 10 [(0, 0)] = []"
    by (simp add: purged_def)
  have "fst (sliding_window_log_dependency
          (snd (sliding_window_log_run empty_store ''alice'' [(1, 10, 0)])) ''alice'' 1 10 10)
     = Inr allowed"
    using sliding_window_log_purge
      [where s = "snd (sliding_window_log_run empty_store ''alice'' [(1, 10, 0)])"
         and uid = "''alice''" and m = 1 and w = 10 and now = 10, THEN conjunct1]
    unfolding z1 Let_def p by (simp split: prod.splits)
  moreover have e: "zsets empty_store (sliding_window_log_key ''alice'') = []"
    by (simp add: empty_store_def)
  moreover have srt: "sorted (0 # map (\<lambda>c. snd (snd c)) [(3, 10, 0), (3, 10, 2), (3, 10, 11 :: real)])"
    by simp
  moreover have z3: "zsets (snd (sliding_window_log_run empty_store ''alice''
         [(3, 10, 0), (3, 10, 2), (3, 10, 11)])) (sliding_window_log_key ''alice'') = [(2, 2), (11, 11)]"
    by code_simp
  moreover have "(11::real) - real_of_int 10 < 2 \<and> (2::real) \<le> 11"
    using sliding_window_log_purge
      [where s = empty_store and uid = "''alice''"
         and calls = "[(3, 10, 0), (3, 10, 2), (3, 10, 11)]", THEN conjunct2]
      e srt unfolding z3 by simp
  ultimately show ?thesis using z1 p by simp
qed

text \<open>
  C4 as stated fails: with \<open>max_requests = 1\<close> and \<open>window_seconds = 10\<close>, the entry of
  the call at 0 is removed by the call at 10, which is therefore allowed.
\<close>

theorem sliding_window_log_boundary_counterexample:
  "fst (sliding_window_log_run empty_store ''alice'' [(1, 10, 0), (1, 10, 10)])
     = [Inr allowed, Inr allowed] \<and>
   zsets (snd (sliding_window_log_run empty_store ''alice'' [(1, 10, 0)]))
     (sliding_window_log_key ''alice'') = [(0, 0)] \<and>
   (0::real) = 10 - real_of_int 10 \<and>
   zsets (snd (sliding_window_log_run empty_store ''alice'' [(1, 10, 0), (1, 10, 10)]))
     (sliding_window_log_key ''alice'') = [(10, 10)]"
  by code_simp

subsection \<open>Calls at the same timestamp\<close>

lemma count_fst_update:
  "distinct (map fst z) \<Longrightarrow> length (filter (\<lambda>e. fst e = k) (AList.update k v z)) = 1"
proof (induction z)
  case Nil
  then show ?case by simp
next
  case (Cons e z)
  show ?case
  proof (cases "fst e = k")
    case True
    with Cons.prems have "k \<notin> fst ` set z" by auto
    then have "filter (\<lambda>e. fst e = k) z = []"
      by (auto simp: filter_empty_conv)
    with True show ?thesis by (cases e) simp
  next
    case False
    with Cons show ?thesis by (cases e) simp
  qed
qed

lemma sliding_window_log_allowed_log:
  assumes "fst (sliding_window_log_dependency s uid m w now) = Inr allowed"
  shows "zsets (snd (sliding_window_log_dependency s uid m w now)) (sliding_window_log_key uid)
         = AList.update now now (purged now w (zsets s (sliding_window_log_key uid)))"
  using assms
  by (simp add: sliding_window_log_step zsets_zadd zsets_zremrangebyscore split: if_splits)

lemma sliding_window_log_same_instant_run:
  assumes m: "2 \<le> m"
  shows "zsets s (sliding_window_log_key uid) = [] \<or>
         zsets s (sliding_window_log_key uid) = [(now, now)] \<Longrightarrow>
    fst (sliding_window_log_run s uid (replicate n (m, w, now))) = replicate n (Inr allowed) \<and>
    (0 < n \<longrightarrow>
       zsets (snd (sliding_window_log_run s uid (replicate n (m, w, now))))
         (sliding_window_log_key uid) = [(now, now)])"
proof (induction n arbitrary: s)
  case 0
  then show ?case by simp
next
  case (Suc n)
  let ?z = "zsets s (sliding_window_log_key uid)"
  from Suc.prems have kept: "purged now w ?z = [] \<or> purged now w ?z = [(now, now)]"
    by (auto simp: purged_def)
  then have len: "int (length (purged now w ?z)) < m" using m by auto
  from kept have upd: "AList.update now now (purged now w ?z) = [(now, now)]" by auto
  have call: "fst (sliding_window_log_dependency s uid m w now) = Inr allowed"
    using len by (simp add: sliding_window_log_step)
  have z': "zsets (snd (sliding_window_log_dependency s uid m w now)) (sliding_window_log_key uid)
      = [(now, now)]"
    using sliding_window_log_allowed_log[OF call] upd by simp
  from Suc.IH[of "snd (sliding_window_log_dependency s uid m w now)"] z'
  have ih: "fst (sliding_window_log_run (snd (sliding_window_log_dependency s uid m w now)) uid
                   (replicate n (m, w, now))) = replicate n (Inr allowed)"
    and ihz: "0 < n \<longrightarrow>
       zsets (snd (sliding_window_log_run (snd (sliding_window_log_dependency s uid m w now)) uid
                (replicate n (m, w, now)))) (sliding_window_log_key uid) = [(now, now)]"
    by simp_all
  show ?case
  proof (cases "n = 0")
    case True
    with call z' show ?thesis by (simp add: split_beta)
  next
    case False
    with call ih ihz show ?thesis by (simp add: split_beta)
  qed
qed

text \<open>
  C10. The member added by an allowed call is the timestamp itself. With a positive window and
  a log holding one entry per member, two allowed calls at the same timestamp leave the log
  the first of them left, with exactly one entry for that timestamp. From an empty log,
  with \<open>max_requests\<close> at least 2, any number of calls at one timestamp are all allowed and
  leave a single entry: the cardinality counts distinct timestamps, not admitted calls.
\<close>

theorem sliding_window_log_same_timestamp:
  "(distinct (map fst (zsets s (sliding_window_log_key uid))) \<and> 0 < w \<and>
    fst (sliding_window_log_dependency s uid m w now) = Inr allowed \<and>
    fst (sliding_window_log_dependency (snd (sliding_window_log_dependency s uid m w now))
           uid m' w now) = Inr allowed \<longrightarrow>
      zsets (snd (sliding_window_log_dependency (snd (sliding_window_log_dependency s uid m w now))
                    uid m' w now)) (sliding_window_log_key uid)
        = zsets (snd (sliding_window_log_dependency s uid m w now)) (sliding_window_log_key uid) \<and>
      length (filter (\<lambda>e. fst e = now)
                (zsets (snd (sliding_window_log_dependency
                               (snd (sliding_window_log_dependency s uid m w now)) uid m' w now))
                   (sliding_window_log_key uid))) = 1) \<and>
   (zsets s (sliding_window_log_key uid) = [] \<and> 2 \<le> m \<longrightarrow>
      fst (sliding_window_log_run s uid (replicate n (m, w, now))) = replicate n (Inr allowed) \<and>
      (0 < n \<longrightarrow>
         zsets (snd (sliding_window_log_run s uid (replicate n (m, w, now))))
           (sliding_window_log_key uid) = [(now, now)]))"
proof (intro conjI impI)
  assume a: "distinct (map fst (zsets s (sliding_window_log_key uid))) \<and> 0 < w \<and>
    fst (sliding_window_log_dependency s uid m w now) = Inr allowed \<and>
    fst (sliding_window_log_dependency (snd (sliding_window_log_dependency s uid m w now))
           uid m' w now) = Inr allowed"
  let ?s1 = "snd (sliding_window_log_dependency s uid m w now)"
  let ?kept = "purged now w (zsets s (sliding_window_log_key uid))"
  from a have w: "0 < w" by simp
  from a have z1: "zsets ?s1 (sliding_window_log_key uid) = AList.update now now ?kept"
    by (simp add: sliding_window_log_allowed_log)
  from a have "zsets (snd (sliding_window_log_dependency ?s1 uid m' w now)) (sliding_window_log_key uid)
      = AList.update now now (purged now w (zsets ?s1 (sliding_window_log_key uid)))"
    by (simp add: sliding_window_log_allowed_log)
  also have "\<dots> = AList.update now now (AList.update now now ?kept)"
    unfolding z1 by (simp only: purged_update_now[OF w])
  also have "\<dots> = AList.update now now ?kept" by simp
  finally show same: "zsets (snd (sliding_window_log_dependency ?s1 uid m' w now))
      (sliding_window_log_key uid) = zsets ?s1 (sliding_window_log_key uid)"
    using z1 by simp
  from a have "distinct (map fst ?kept)" by (simp add: distinct_purged)
  then have "length (filter (\<lambda>e. fst e = now) (AList.update now now ?kept)) = 1"
    by (rule count_fst_update)
  then show "length (filter (\<lambda>e. fst e = now)
                (zsets (snd (sliding_window_log_dependency ?s1 uid m' w now))
                   (sliding_window_log_key uid))) = 1"
    unfolding same z1 by simp
next
  assume a: "zsets s (sliding_window_log_key uid) = [] \<and> 2 \<le> m"
  then have m: "2 \<le> m" and e: "zsets s (sliding_window_log_key uid) = [] \<or>
         zsets s (sliding_window_log_key uid) = [(now, now)]" by simp_all
  from sliding_window_log_same_instant_run[OF m e, of n w]
  show "fst (sliding_window_log_run s uid (replicate n (m, w, now))) = replicate n (Inr allowed)"
    by simp
next
  assume a: "zsets s (sliding_window_log_key uid) = [] \<and> 2 \<le> m" and n: "0 < n"
  then have m: "2 \<le> m" and e: "zsets s (sliding_window_log_key uid) = [] \<or>
         zsets s (sliding_window_log_key uid) = [(now, now)]" by simp_all
  from sliding_window_log_same_instant_run[OF m e, of n w] n
  show "zsets (snd (sliding_window_log_run s uid (replicate n (m, w, now))))
           (sliding_window_log_key uid) = [(now, now)]"
    by simp
qed

theorem sliding_window_log_same_timestamp_witness:
  "distinct (map fst (zsets empty_store (sliding_window_log_key ''alice''))) \<and> (0::int) < 10 \<and>
   fst (sliding_window_log_dependency empty_store ''alice'' 5 10 3) = Inr allowed \<and>
   fst (sliding_window_log_dependency
          (snd (sliding_window_log_dependency empty_store ''alice'' 5 10 3)) ''alice'' 5 10 3)
     = Inr allowed \<and>
   zsets (snd (sliding_window_log_dependency
                 (snd (sliding_window_log_dependency empty_store ''alice'' 5 10 3)) ''alice'' 5 10 3))
     (sliding_window_log_key ''alice'')
     = zsets (snd (sliding_window_log_dependency empty_store ''alice'' 5 10 3))
         (sliding_window_log_key ''alice'') \<and>
   zsets empty_store (sliding_window_log_key ''alice'') = [] \<and> (2::int) \<le> 2 \<and>
   fst (sliding_window_log_run empty_store ''alice'' [(2, 10, 3), (2, 10, 3), (2, 10, 3), (2, 10, 3)])
     = [Inr allowed, Inr allowed, Inr allowed, Inr allowed] \<and>
   zsets (snd (sliding_window_log_run empty_store ''alice''
                 [(2, 10, 3), (2, 10, 3), (2, 10, 3), (2, 10, 3)]))
     (sliding_window_log_key ''alice'') = [(3, 3)]"
proof -
  have e: "zsets empty_store (sliding_window_log_key ''alice'') = []"
    by (simp add: empty_store_def)
  have d: "distinct (map fst (zsets empty_store (sliding_window_log_key ''alice'')))"
    by (simp add: e)
  have a1: "fst (sliding_window_log_dependency empty_store ''alice'' 5 10 3) = Inr allowed"
    by code_simp
  have a2: "fst (sliding_window_log_dependency
          (snd (sliding_window_log_dependency empty_store ''alice'' 5 10 3)) ''alice'' 5 10 3)
     = Inr allowed"
    by code_simp
  have r: "replicate 4 (2::int, 10::int, 3::real) = [(2, 10, 3), (2, 10, 3), (2, 10, 3), (2, 10, 3)]"
    by (simp add: numeral_eq_Suc)
  note t1 = sliding_window_log_same_timestamp
    [where s = empty_store and uid = "''alice''" and m = 5 and m' = 5 and w = 10 and now = 3,
     THEN conjunct1, rule_format]
  note t2 = sliding_window_log_same_timestamp
    [where s = empty_store and uid = "''alice''" and m = 2 and w = 10 and now = 3 and n = 4,
     THEN conjunct2, rule_format]
  have c1: "zsets (snd (sliding_window_log_dependency
                 (snd (sliding_window_log_dependency empty_store ''alice'' 5 10 3)) ''alice'' 5 10 3))
     (sliding_window_log_key ''alice'')
     = zsets (snd (sliding_window_log_dependency empty_store ''alice'' 5 10 3))
         (sliding_window_log_key ''alice'')"
    using t1 d a1 a2 by simp
  have c2: "fst (sliding_window_log_run empty_store ''alice''
                   [(2, 10, 3), (2, 10, 3), (2, 10, 3), (2, 10, 3)])
     = [Inr allowed, Inr allowed, Inr allowed, Inr allowed] \<and>
   zsets (snd (sliding_window_log_run empty_store ''alice''
                 [(2, 10, 3), (2, 10, 3), (2, 10, 3), (2, 10, 3)]))
     (sliding_window_log_key ''alice'') = [(3, 3)]"
    using t2 e unfolding r by (simp add: numeral_eq_Suc)
  from e d a1 a2 c1 c2 show ?thesis by simp
qed

section \<open>Denied calls\<close>

lemma token_bucket_not_allowed:
  "fst (token_bucket_dependency s uid m r tf now) \<noteq> Inr allowed \<Longrightarrow>
   snd (token_bucket_dependency s uid m r tf now) = s"
  by (auto simp: token_bucket_dependency_def hmget_def Let_def
      split: option.splits sum.splits if_splits)

lemma leaky_bucket_not_allowed:
  "fst (leaky_bucket_dependency s uid c r tf now) \<noteq> Inr allowed \<Longrightarrow>
   snd (leaky_bucket_dependency s uid c r tf now) = s"
  by (auto simp: leaky_bucket_dependency_def hmget_def Let_def
      split: option.splits sum.splits if_splits)

lemma fixed_window_counter_not_allowed:
  "fst (fixed_window_counter_dependency s uid m w now) \<noteq> Inr allowed \<Longrightarrow>
   snd (fixed_window_counter_dependency s uid m w now) = s"
  by (auto simp: fixed_window_counter_dependency_def Let_def split: if_splits)

lemma sliding_window_counter_not_allowed:
  "fst (sliding_window_counter_dependency s uid m w sw t) \<noteq> Inr allowed \<Longrightarrow>
   snd (sliding_window_counter_dependency s uid m w sw t) = s"
  by (auto simp: sliding_window_counter_dependency_def Let_def split: if_splits sum.splits)

lemma sliding_window_log_denied:
  assumes "fst (sliding_window_log_dependency s uid m w now) = Inl too_many_requests"
  shows "sliding_window_log_dependency s uid m w now =
           (Inl too_many_requests,
            zremrangebyscore s (sliding_window_log_key uid) 0 (now - real_of_int w))"
    and "m \<le> int (length (purged now w (zsets s (sliding_window_log_key uid))))"
  using assms by (simp_all add: sliding_window_log_step split: if_splits)

text \<open>
  C2, as amended. A denied call of the token bucket, the leaky bucket, the fixed window
  counter or the sliding window counter leaves the store as it was. A denied call of the
  sliding window log leaves the store after the purge: the log of the identity without the
  entries scored from 0 to \<open>now - window_seconds\<close>, the rejected attempt not added; the
  same call repeated on that store gives the same denial and the same store.
\<close>

theorem denied_call_store:
  "(fst (token_bucket_dependency s uid max_tokens refill_rate tf now) = Inl too_many_requests \<longrightarrow>
      snd (token_bucket_dependency s uid max_tokens refill_rate tf now) = s) \<and>
   (fst (leaky_bucket_dependency s uid capacity leak_rate tf now) = Inl too_many_requests \<longrightarrow>
      snd (leaky_bucket_dependency s uid capacity leak_rate tf now) = s) \<and>
   (fst (fixed_window_counter_dependency s uid m w now) = Inl too_many_requests \<longrightarrow>
      snd (fixed_window_counter_dependency s uid m w now) = s) \<and>
   (fst (sliding_window_counter_dependency s uid m w sw now) = Inl too_many_requests \<longrightarrow>
      snd (sliding_window_counter_dependency s uid m w sw now) = s) \<and>
   (fst (sliding_window_log_dependency s uid m w now) = Inl too_many_requests \<longrightarrow>
      snd (sliding_window_log_dependency s uid m w now)
        = zremrangebyscore s (sliding_window_log_key uid) 0 (now - real_of_int w) \<and>
      zsets (snd (sliding_window_log_dependency s uid m w now)) (sliding_window_log_key uid)
        = purged now w (zsets s (sliding_window_log_key uid)) \<and>
      sliding_window_log_dependency (snd (sliding_window_log_dependency s uid m w now)) uid m w now
        = sliding_window_log_dependency s uid m w now)"
proof (intro conjI impI)
  assume "fst (token_bucket_dependency s uid max_tokens refill_rate tf now) = Inl too_many_requests"
  then show "snd (token_bucket_dependency s uid max_tokens refill_rate tf now) = s"
    by (intro token_bucket_not_allowed) simp
next
  assume "fst (leaky_bucket_dependency s uid capacity leak_rate tf now) = Inl too_many_requests"
  then show "snd (leaky_bucket_dependency s uid capacity leak_rate tf now) = s"
    by (intro leaky_bucket_not_allowed) simp
next
  assume "fst (fixed_window_counter_dependency s uid m w now) = Inl too_many_requests"
  then show "snd (fixed_window_counter_dependency s uid m w now) = s"
    by (intro fixed_window_counter_not_allowed) simp
next
  assume "fst (sliding_window_counter_dependency s uid m w sw now) = Inl too_many_requests"
  then show "snd (sliding_window_counter_dependency s uid m w sw now) = s"
    by (intro sliding_window_counter_not_allowed) simp
next
  assume a: "fst (sliding_window_log_dependency s uid m w now) = Inl too_many_requests"
  note d = sliding_window_log_denied[OF a]
  show "snd (sliding_window_log_dependency s uid m w now)
        = zremrangebyscore s (sliding_window_log_key uid) 0 (now - real_of_int w)"
    by (simp add: d(1))
  show "zsets (snd (sliding_window_log_dependency s uid m w now)) (sliding_window_log_key uid)
        = purged now w (zsets s (sliding_window_log_key uid))"
    by (simp add: d(1) zsets_zremrangebyscore)
  show "sliding_window_log_dependency (snd (sliding_window_log_dependency s uid m w now)) uid m w now
        = sliding_window_log_dependency s uid m w now"
    using d(2) unfolding d(1)
    by (simp add: sliding_window_log_step zsets_zremrangebyscore purged_idem zremrangebyscore_idem)
qed

theorem denied_call_store_witness:
  "fst (token_bucket_dependency exhausted_store ''alice'' 1 1 (1/2) (1/2)) = Inl too_many_requests \<and>
   snd (token_bucket_dependency exhausted_store ''alice'' 1 1 (1/2) (1/2)) = exhausted_store \<and>
   fst (leaky_bucket_dependency empty_store ''alice'' 0 1 0 0) = Inl too_many_requests \<and>
   snd (leaky_bucket_dependency empty_store ''alice'' 0 1 0 0) = empty_store \<and>
   fst (fixed_window_counter_dependency once_counted_store ''alice'' 1 60 5) = Inl too_many_requests \<and>
   snd (fixed_window_counter_dependency once_counted_store ''alice'' 1 60 5) = once_counted_store \<and>
   fst (sliding_window_counter_dependency empty_store ''alice'' 0 60 10 65) = Inl too_many_requests \<and>
   snd (sliding_window_counter_dependency empty_store ''alice'' 0 60 10 65) = empty_store \<and>
   fst (sliding_window_log_dependency two_entry_log_store ''alice'' 1 10 12) = Inl too_many_requests \<and>
   zsets (snd (sliding_window_log_dependency two_entry_log_store ''alice'' 1 10 12))
     (sliding_window_log_key ''alice'') = purged 12 10 [(1, 1), (5, 5)] \<and>
   sliding_window_log_dependency
     (snd (sliding_window_log_dependency two_entry_log_store ''alice'' 1 10 12)) ''alice'' 1 10 12
     = sliding_window_log_dependency two_entry_log_store ''alice'' 1 10 12"
proof -
  have tb: "fst (token_bucket_dependency exhausted_store ''alice'' 1 1 (1/2) (1/2))
      = Inl too_many_requests"
    by code_simp
  have lb: "fst (leaky_bucket_dependency empty_store ''alice'' 0 1 0 0) = Inl too_many_requests"
    by code_simp
  have fw: "fst (fixed_window_counter_dependency once_counted_store ''alice'' 1 60 5)
      = Inl too_many_requests"
    by code_simp
  have sc: "fst (sliding_window_counter_dependency empty_store ''alice'' 0 60 10 65)
      = Inl too_many_requests"
    by code_simp
  have sl: "fst (sliding_window_log_dependency two_entry_log_store ''alice'' 1 10 12)
      = Inl too_many_requests"
    by code_simp
  have z: "zsets two_entry_log_store (sliding_window_log_key ''alice'') = [(1, 1), (5, 5)]"
    by code_simp
  note t1 = denied_call_store
    [where s = exhausted_store and uid = "''alice''" and max_tokens = 1 and refill_rate = 1
       and tf = "1/2" and now = "1/2", THEN conjunct1, rule_format, OF tb]
  note t2 = denied_call_store
    [where s = empty_store and uid = "''alice''" and capacity = 0 and leak_rate = 1
       and tf = 0 and now = 0, THEN conjunct2, THEN conjunct1, rule_format, OF lb]
  note t3 = denied_call_store
    [where s = once_counted_store and uid = "''alice''" and m = 1 and w = 60 and now = 5,
     THEN conjunct2, THEN conjunct2, THEN conjunct1, rule_format, OF fw]
  note t4 = denied_call_store
    [where s = empty_store and uid = "''alice''" and m = 0 and w = 60 and sw = 10 and now = 65,
     THEN conjunct2, THEN conjunct2, THEN conjunct2, THEN conjunct1, rule_format, OF sc]
  note t5 = denied_call_store
    [where s = two_entry_log_store and uid = "''alice''" and m = 1 and w = 10 and now = 12,
     THEN conjunct2, THEN conjunct2, THEN conjunct2, THEN conjunct2, rule_format, OF sl]
  from t5 have l5:
    "zsets (snd (sliding_window_log_dependency two_entry_log_store ''alice'' 1 10 12))
       (sliding_window_log_key ''alice'') = purged 12 10 [(1, 1), (5, 5)]"
    "sliding_window_log_dependency
       (snd (sliding_window_log_dependency two_entry_log_store ''alice'' 1 10 12)) ''alice'' 1 10 12
     = sliding_window_log_dependency two_entry_log_store ''alice'' 1 10 12"
    unfolding z by blast+
  from tb lb fw sc sl t1 t2 t3 t4 l5 show ?thesis
    by blast
qed

text \<open>
  C2 as stated fails for the sliding window log: after calls at 1 and 5 allowed with
  \<open>max_requests = 2\<close>, a call at 12 with \<open>max_requests = 1\<close> and a window of 10 is denied
  and removes the entry 1 from the log.
\<close>

theorem sliding_window_log_denied_purge_counterexample:
  "fst (sliding_window_log_run empty_store ''alice'' [(2, 10, 1), (2, 10, 5)])
     = [Inr allowed, Inr allowed] \<and>
   zsets two_entry_log_store (sliding_window_log_key ''alice'') = [(1, 1), (5, 5)] \<and>
   fst (sliding_window_log_dependency two_entry_log_store ''alice'' 1 10 12) = Inl too_many_requests \<and>
   zsets (snd (sliding_window_log_dependency two_entry_log_store ''alice'' 1 10 12))
     (sliding_window_log_key ''alice'') = [(5, 5)] \<and>
   snd (sliding_window_log_dependency two_entry_log_store ''alice'' 1 10 12) \<noteq> two_entry_log_store"
proof -
  have r: "fst (sliding_window_log_run empty_store ''alice'' [(2, 10, 1), (2, 10, 5)])
     = [Inr allowed, Inr allowed]"
    by code_simp
  have z: "zsets two_entry_log_store (sliding_window_log_key ''alice'') = [(1, 1), (5, 5)]"
    by code_simp
  have d: "fst (sliding_window_log_dependency two_entry_log_store ''alice'' 1 10 12)
      = Inl too_many_requests"
    by code_simp
  have z': "zsets (snd (sliding_window_log_dependency two_entry_log_store ''alice'' 1 10 12))
     (sliding_window_log_key ''alice'') = [(5, 5)]"
    by code_simp
  have "snd (sliding_window_log_dependency two_entry_log_store ''alice'' 1 10 12)
          \<noteq> two_entry_log_store"
  proof
    assume "snd (sliding_window_log_dependency two_entry_log_store ''alice'' 1 10 12)
          = two_entry_log_store"
    with z z' show False by simp
  qed
  with r z d z' show ?thesis by simp
qed

section \<open>Keys\<close>

text \<open>The decimal text of an integer determines the integer, so keys of different windows differ.\<close>

lemma digit_char_inj: "a < 10 \<Longrightarrow> b < 10 \<Longrightarrow> digit_char a = digit_char b \<Longrightarrow> a = b"
  unfolding digit_char_def
  by (subst (asm) nth_eq_iff_index_eq) simp_all

lemma digit_char_in: "d < 10 \<Longrightarrow> digit_char d \<in> set ''0123456789''"
  unfolding digit_char_def by (rule nth_mem) simp

lemma show_nat_not_Nil: "show_nat n \<noteq> []"
  by (subst show_nat.simps) simp

lemma set_show_nat: "set (show_nat n) \<subseteq> set ''0123456789''"
proof (induction n rule: show_nat.induct)
  case (1 n)
  show ?case
  proof (cases "n < 10")
    case True
    then show ?thesis using digit_char_in[of n] by (subst show_nat.simps) simp
  next
    case False
    have "n mod 10 < 10" by simp
    from digit_char_in[OF this] 1[OF False] False show ?thesis
      by (subst show_nat.simps) simp
  qed
qed

lemma show_nat_inj: "show_nat n = show_nat m \<Longrightarrow> n = m"
proof (induction n arbitrary: m rule: show_nat.induct)
  case (1 n)
  show ?case
  proof (cases "n < 10")
    case n: True
    show ?thesis
    proof (cases "m < 10")
      case True
      with n 1(2) show ?thesis
        by (simp add: show_nat.simps[of n] show_nat.simps[of m] digit_char_inj)
    next
      case False
      with n 1(2) show_nat_not_Nil[of "m div 10"] show ?thesis
        by (simp add: show_nat.simps[of n] show_nat.simps[of m])
    qed
  next
    case n: False
    show ?thesis
    proof (cases "m < 10")
      case True
      with n 1(2) show_nat_not_Nil[of "n div 10"] show ?thesis
        by (simp add: show_nat.simps[of n] show_nat.simps[of m])
    next
      case False
      with n 1(2) have eq: "show_nat (n div 10) = show_nat (m div 10)"
        and d: "digit_char (n mod 10) = digit_char (m mod 10)"
        by (simp_all add: show_nat.simps[of n] show_nat.simps[of m])
      from 1(1)[OF n eq] have "n div 10 = m div 10" .
      moreover from d have "n mod 10 = m mod 10"
        by (intro digit_char_inj) simp_all
      ultimately show ?thesis by (metis div_mult_mod_eq)
    qed
  qed
qed

lemma show_nat_no_minus: "CHR ''-'' \<notin> set (show_nat n)"
  using set_show_nat[of n] by auto

lemma show_int_inj: "show_int i = show_int j \<Longrightarrow> i = j"
proof -
  assume a: "show_int i = show_int j"
  have hd_neg: "\<And>n. hd (show_nat n) \<noteq> CHR ''-''"
    using show_nat_no_minus show_nat_not_Nil by (metis hd_in_set)
  show ?thesis
  proof (cases "i < 0")
    case i: True
    show ?thesis
    proof (cases "j < 0")
      case True
      with i a have "show_nat (nat (- i)) = show_nat (nat (- j))" by (simp add: show_int_def)
      from show_nat_inj[OF this] i True show ?thesis by simp
    next
      case False
      with i a have "CHR ''-'' # show_nat (nat (- i)) = show_nat (nat j)" by (simp add: show_int_def)
      then have "hd (show_nat (nat j)) = CHR ''-''" by (metis list.sel(1))
      with hd_neg show ?thesis by blast
    qed
  next
    case i: False
    show ?thesis
    proof (cases "j < 0")
      case True
      with i a have "show_nat (nat i) = CHR ''-'' # show_nat (nat (- j))" by (simp add: show_int_def)
      then have "hd (show_nat (nat i)) = CHR ''-''" by (metis list.sel(1))
      with hd_neg show ?thesis by blast
    next
      case False
      with i a have "show_nat (nat i) = show_nat (nat j)" by (simp add: show_int_def)
      from show_nat_inj[OF this] i False show ?thesis by simp
    qed
  qed
qed

lemma fixed_window_key_inj: "fixed_window_key uid k = fixed_window_key uid k' \<Longrightarrow> k = k'"
  by (simp add: fixed_window_key_def show_int_inj)

section \<open>Fixed window counter\<close>

lemma same_window_live:
  assumes w: "0 < w" and x: "\<lfloor>(x - real_of_int w) / real_of_int w\<rfloor> = k"
    and t: "\<lfloor>t / real_of_int w\<rfloor> = k"
  shows "t < x"
proof -
  have "t / real_of_int w < real_of_int k + 1" using t by linarith
  then have "t < (real_of_int k + 1) * real_of_int w"
    using w by (simp add: pos_divide_less_eq)
  moreover have "real_of_int k \<le> (x - real_of_int w) / real_of_int w" using x by linarith
  then have "real_of_int k * real_of_int w \<le> x - real_of_int w"
    using w by (simp add: pos_le_divide_eq)
  ultimately show ?thesis by (simp add: algebra_simps)
qed

lemma fixed_window_call:
  assumes w: "0 < w" and t: "\<lfloor>t / real_of_int w\<rfloor> = k" and st: "window_count s uid w k c"
  shows "fixed_window_counter_dependency s uid m w t =
     (if 0 < c \<and> m \<le> c then (Inl too_many_requests, s)
      else (Inr allowed,
            s\<lparr>strings := (strings s)(fixed_window_key uid k \<mapsto>
                 \<lparr>ent_val = c + 1, ent_expire_at = Some (t + real_of_int w)\<rparr>)\<rparr>))"
proof (cases "strings s (fixed_window_key uid k)")
  case None
  with st have "c = 0" by (simp add: window_count_def)
  with None w t show ?thesis
    by (simp add: fixed_window_counter_dependency_def Let_def get_def lookup_def incr_def
        expire_def live_def)
next
  case (Some e)
  with st obtain x where e: "ent_val e = c" "0 < c" "ent_expire_at e = Some x"
      "\<lfloor>(x - real_of_int w) / real_of_int w\<rfloor> = k"
    by (auto simp: window_count_def split: option.splits)
  from same_window_live[OF w e(4) t] have live: "t < x" .
  have e': "e = \<lparr>ent_val = c, ent_expire_at = Some x\<rparr>" using e by (cases e) simp
  from Some w t live e(2) show ?thesis
    by (simp add: e' fixed_window_counter_dependency_def Let_def get_def lookup_def incr_def
        expire_def live_def)
qed

lemma window_count_absent:
  "strings s (fixed_window_key uid k) = None \<Longrightarrow> window_count s uid w k 0"
  by (simp add: window_count_def)

lemma fixed_window_run_append:
  "fixed_window_counter_run s uid m w (xs @ ys) =
     (fst (fixed_window_counter_run s uid m w xs) @
        fst (fixed_window_counter_run (snd (fixed_window_counter_run s uid m w xs)) uid m w ys),
      snd (fixed_window_counter_run (snd (fixed_window_counter_run s uid m w xs)) uid m w ys))"
  by (induction xs arbitrary: s) (simp_all add: split_beta)

lemma fixed_window_same_window_run:
  assumes w: "0 < w"
  shows "\<forall>t \<in> set ts. \<lfloor>t / real_of_int w\<rfloor> = k \<Longrightarrow> 0 \<le> c \<Longrightarrow> window_count s uid w k c \<Longrightarrow>
     c + int (length ts) \<le> m \<Longrightarrow>
     fst (fixed_window_counter_run s uid m w ts) = replicate (length ts) (Inr allowed) \<and>
     window_count (snd (fixed_window_counter_run s uid m w ts)) uid w k (c + int (length ts)) \<and>
     (\<forall>key. key \<noteq> fixed_window_key uid k \<longrightarrow>
        strings (snd (fixed_window_counter_run s uid m w ts)) key = strings s key)"
proof (induction ts arbitrary: s c)
  case Nil
  then show ?case by simp
next
  case (Cons t ts)
  let ?s' = "s\<lparr>strings := (strings s)(fixed_window_key uid k \<mapsto>
                 \<lparr>ent_val = c + 1, ent_expire_at = Some (t + real_of_int w)\<rparr>)\<rparr>"
  from Cons.prems have t: "\<lfloor>t / real_of_int w\<rfloor> = k" and c: "c < m" by simp_all
  from fixed_window_call[OF w t Cons.prems(3), of m] c
  have call: "fixed_window_counter_dependency s uid m w t = (Inr allowed, ?s')" by simp
  have wc: "window_count ?s' uid w k (c + 1)"
    using Cons.prems(2) t w by (simp add: window_count_def)
  have rest: "\<forall>t \<in> set ts. \<lfloor>t / real_of_int w\<rfloor> = k" using Cons.prems(1) by simp
  have c1: "0 \<le> c + 1" using Cons.prems(2) by simp
  have le: "c + 1 + int (length ts) \<le> m" using Cons.prems(4) by simp
  have run: "fixed_window_counter_run s uid m w (t # ts) =
      (Inr allowed # fst (fixed_window_counter_run ?s' uid m w ts),
       snd (fixed_window_counter_run ?s' uid m w ts))"
    by (simp add: call split_beta)
  have eq: "c + 1 + int (length ts) = c + int (length (t # ts))" by simp
  from Cons.IH[OF rest c1 wc le]
  have ih1: "fst (fixed_window_counter_run ?s' uid m w ts) = replicate (length ts) (Inr allowed)"
    and ih2: "window_count (snd (fixed_window_counter_run ?s' uid m w ts)) uid w k
                (c + int (length (t # ts)))"
    and ih3: "\<forall>key. key \<noteq> fixed_window_key uid k \<longrightarrow>
        strings (snd (fixed_window_counter_run ?s' uid m w ts)) key = strings ?s' key"
    unfolding eq by blast+
  from ih3 have ih3': "\<forall>key. key \<noteq> fixed_window_key uid k \<longrightarrow>
        strings (snd (fixed_window_counter_run ?s' uid m w ts)) key = strings s key"
    by simp
  show ?case unfolding run using ih1 ih2 ih3' by simp
qed

lemma fixed_window_full:
  assumes w: "0 < w" and t: "\<lfloor>t / real_of_int w\<rfloor> = k" and st: "window_count s uid w k m"
    and m: "0 < m"
  shows "fixed_window_counter_dependency s uid m w t = (Inl too_many_requests, s)"
  using fixed_window_call[OF w t st, of m] m by simp

lemma fixed_window_two_windows:
  assumes w: "0 < w" and m: "0 \<le> m" and k': "k' \<noteq> k"
    and a0: "strings s (fixed_window_key uid k) = None"
    and a1: "strings s (fixed_window_key uid k') = None"
    and b: "\<forall>t \<in> set before. \<lfloor>t / real_of_int w\<rfloor> = k"
    and a: "\<forall>t \<in> set after. \<lfloor>t / real_of_int w\<rfloor> = k'"
    and lb: "int (length before) = m" and la: "int (length after) = m"
  shows "fst (fixed_window_counter_run s uid m w (before @ after))
           = replicate (length before + length after) (Inr allowed)"
    and "window_count (snd (fixed_window_counter_run s uid m w (before @ after))) uid w k' m"
    and "window_count (snd (fixed_window_counter_run s uid m w before)) uid w k m"
proof -
  let ?s1 = "snd (fixed_window_counter_run s uid m w before)"
  have le1: "0 + int (length before) \<le> m" using lb by simp
  from fixed_window_same_window_run[OF w b order_refl window_count_absent[OF a0] le1]
  have r1: "fst (fixed_window_counter_run s uid m w before) = replicate (length before) (Inr allowed)"
    and c1: "window_count ?s1 uid w k (0 + int (length before))"
    and o1: "\<forall>key. key \<noteq> fixed_window_key uid k \<longrightarrow> strings ?s1 key = strings s key"
    by blast+
  from c1 lb show "window_count ?s1 uid w k m" by simp
  have "fixed_window_key uid k' \<noteq> fixed_window_key uid k"
    using k' fixed_window_key_inj by blast
  with o1 a1 have a1': "strings ?s1 (fixed_window_key uid k') = None" by simp
  have le2: "0 + int (length after) \<le> m" using la by simp
  from fixed_window_same_window_run[OF w a order_refl window_count_absent[OF a1'] le2]
  have r2: "fst (fixed_window_counter_run ?s1 uid m w after) = replicate (length after) (Inr allowed)"
    and c2: "window_count (snd (fixed_window_counter_run ?s1 uid m w after)) uid w k'
               (0 + int (length after))"
    by blast+
  show "fst (fixed_window_counter_run s uid m w (before @ after))
           = replicate (length before + length after) (Inr allowed)"
    by (simp add: fixed_window_run_append r1 r2 replicate_add)
  show "window_count (snd (fixed_window_counter_run s uid m w (before @ after))) uid w k' m"
    using c2 la by (simp add: fixed_window_run_append)
qed

text \<open>
  C6. With \<open>max_requests = 3\<close> and \<open>window_seconds = 60\<close>, from a store without the keys
  of windows 0 and 1, three calls just before the boundary at 60 and three calls just
  after it are all allowed. In general, with a positive window, \<open>max_requests\<close> calls in
  window \<open>k\<close> followed by \<open>max_requests\<close> calls in window \<open>k + 1\<close> are all allowed when
  both keys start absent, since the key of the new window is a different key; one more call
  in either window is then denied.
\<close>

theorem fixed_window_boundary_burst:
  "(strings s (fixed_window_key uid 0) = None \<and> strings s (fixed_window_key uid 1) = None \<longrightarrow>
      fst (fixed_window_counter_run s uid 3 60 [59, 119/2, 599/10, 60, 601/10, 121/2])
        = [Inr allowed, Inr allowed, Inr allowed, Inr allowed, Inr allowed, Inr allowed]) \<and>
   (0 < w \<and> 0 \<le> m \<and>
    strings s (fixed_window_key uid k) = None \<and> strings s (fixed_window_key uid (k + 1)) = None \<and>
    (\<forall>t \<in> set before. \<lfloor>t / real_of_int w\<rfloor> = k) \<and>
    (\<forall>t \<in> set after. \<lfloor>t / real_of_int w\<rfloor> = k + 1) \<and>
    int (length before) = m \<and> int (length after) = m \<longrightarrow>
      fst (fixed_window_counter_run s uid m w (before @ after))
        = replicate (length before + length after) (Inr allowed) \<and>
      (0 < m \<and> \<lfloor>t / real_of_int w\<rfloor> = k \<longrightarrow>
         fst (fixed_window_counter_dependency
                (snd (fixed_window_counter_run s uid m w before)) uid m w t)
           = Inl too_many_requests) \<and>
      (0 < m \<and> \<lfloor>t' / real_of_int w\<rfloor> = k + 1 \<longrightarrow>
         fst (fixed_window_counter_dependency
                (snd (fixed_window_counter_run s uid m w (before @ after))) uid m w t')
           = Inl too_many_requests))"
proof (intro conjI impI)
  assume a: "strings s (fixed_window_key uid 0) = None \<and> strings s (fixed_window_key uid 1) = None"
  have b: "\<forall>t \<in> set [59, 119/2, 599/10 :: real]. \<lfloor>t / real_of_int 60\<rfloor> = 0" by simp
  have c: "\<forall>t \<in> set [60, 601/10, 121/2 :: real]. \<lfloor>t / real_of_int 60\<rfloor> = 1" by simp
  from fixed_window_two_windows(1)[where w = 60 and m = 3 and k = 0 and k' = 1 and s = s
      and uid = uid, OF _ _ _ _ _ b c] a
  show "fst (fixed_window_counter_run s uid 3 60 [59, 119/2, 599/10, 60, 601/10, 121/2])
        = [Inr allowed, Inr allowed, Inr allowed, Inr allowed, Inr allowed, Inr allowed]"
    by (simp add: numeral_eq_Suc)
next
  assume a: "0 < w \<and> 0 \<le> m \<and>
    strings s (fixed_window_key uid k) = None \<and> strings s (fixed_window_key uid (k + 1)) = None \<and>
    (\<forall>t \<in> set before. \<lfloor>t / real_of_int w\<rfloor> = k) \<and>
    (\<forall>t \<in> set after. \<lfloor>t / real_of_int w\<rfloor> = k + 1) \<and>
    int (length before) = m \<and> int (length after) = m"
  then have w: "0 < w" and m: "0 \<le> m"
    and a0: "strings s (fixed_window_key uid k) = None"
    and a1: "strings s (fixed_window_key uid (k + 1)) = None"
    and b: "\<forall>t \<in> set before. \<lfloor>t / real_of_int w\<rfloor> = k"
    and c: "\<forall>t \<in> set after. \<lfloor>t / real_of_int w\<rfloor> = k + 1"
    and lb: "int (length before) = m" and la: "int (length after) = m"
    by simp_all
  have k': "k + 1 \<noteq> k" by simp
  note two = fixed_window_two_windows[OF w m k' a0 a1 b c lb la]
  show "fst (fixed_window_counter_run s uid m w (before @ after))
        = replicate (length before + length after) (Inr allowed)"
    by (rule two(1))
  {
    assume h: "0 < m \<and> \<lfloor>t / real_of_int w\<rfloor> = k"
    then have "fixed_window_counter_dependency
                (snd (fixed_window_counter_run s uid m w before)) uid m w t
           = (Inl too_many_requests, snd (fixed_window_counter_run s uid m w before))"
      using fixed_window_full[OF w _ two(3)] by simp
    then show "fst (fixed_window_counter_dependency
                (snd (fixed_window_counter_run s uid m w before)) uid m w t)
           = Inl too_many_requests" by simp
  }
  {
    assume h: "0 < m \<and> \<lfloor>t' / real_of_int w\<rfloor> = k + 1"
    then have "fixed_window_counter_dependency
                (snd (fixed_window_counter_run s uid m w (before @ after))) uid m w t'
           = (Inl too_many_requests, snd (fixed_window_counter_run s uid m w (before @ after)))"
      using fixed_window_full[OF w _ two(2)] by simp
    then show "fst (fixed_window_counter_dependency
                (snd (fixed_window_counter_run s uid m w (before @ after))) uid m w t')
           = Inl too_many_requests" by simp
  }
qed

theorem fixed_window_boundary_burst_witness:
  "strings empty_store (fixed_window_key ''alice'' 0) = None \<and>
   strings empty_store (fixed_window_key ''alice'' 1) = None \<and>
   fst (fixed_window_counter_run empty_store ''alice'' 3 60 [59, 119/2, 599/10, 60, 601/10, 121/2])
     = [Inr allowed, Inr allowed, Inr allowed, Inr allowed, Inr allowed, Inr allowed] \<and>
   \<lfloor>(1199/20 :: real) / real_of_int 60\<rfloor> = 0 \<and> \<lfloor>(61 :: real) / real_of_int 60\<rfloor> = 0 + 1 \<and>
   fst (fixed_window_counter_dependency
          (snd (fixed_window_counter_run empty_store ''alice'' 3 60 [59, 119/2, 599/10]))
          ''alice'' 3 60 (1199/20)) = Inl too_many_requests \<and>
   fst (fixed_window_counter_dependency
          (snd (fixed_window_counter_run empty_store ''alice'' 3 60
                  ([59, 119/2, 599/10] @ [60, 601/10, 121/2])))
          ''alice'' 3 60 61) = Inl too_many_requests"
proof -
  have a0: "strings empty_store (fixed_window_key ''alice'' 0) = None"
    and a1: "strings empty_store (fixed_window_key ''alice'' 1) = None"
    by (simp_all add: empty_store_def)
  have pos: "(0::int) < 3" by simp
  have f1: "\<lfloor>(1199/20 :: real) / real_of_int 60\<rfloor> = 0" by simp
  have f2: "\<lfloor>(61 :: real) / real_of_int 60\<rfloor> = 0 + 1" by simp
  have b: "\<forall>t \<in> set [59, 119/2, 599/10 :: real]. \<lfloor>t / real_of_int 60\<rfloor> = 0" by simp
  have c: "\<forall>t \<in> set [60, 601/10, 121/2 :: real]. \<lfloor>t / real_of_int 60\<rfloor> = 0 + 1" by simp
  have scen: "fst (fixed_window_counter_run empty_store ''alice'' 3 60
                     [59, 119/2, 599/10, 60, 601/10, 121/2])
     = [Inr allowed, Inr allowed, Inr allowed, Inr allowed, Inr allowed, Inr allowed]"
    using fixed_window_boundary_burst[where s = empty_store and uid = "''alice''", THEN conjunct1]
      a0 a1 by blast
  have hyp: "(0::int) < 60 \<and> (0::int) \<le> 3 \<and>
    strings empty_store (fixed_window_key ''alice'' 0) = None \<and>
    strings empty_store (fixed_window_key ''alice'' (0 + 1)) = None \<and>
    (\<forall>t \<in> set [59, 119/2, 599/10 :: real]. \<lfloor>t / real_of_int 60\<rfloor> = 0) \<and>
    (\<forall>t \<in> set [60, 601/10, 121/2 :: real]. \<lfloor>t / real_of_int 60\<rfloor> = 0 + 1) \<and>
    int (length [59, 119/2, 599/10 :: real]) = 3 \<and> int (length [60, 601/10, 121/2 :: real]) = 3"
    using a0 a1 b c by simp
  note gen = fixed_window_boundary_burst
    [where s = empty_store and uid = "''alice''" and w = 60 and m = 3 and k = 0
       and before = "[59, 119/2, 599/10]" and after = "[60, 601/10, 121/2]"
       and t = "1199/20" and t' = 61, THEN conjunct2, rule_format, OF hyp]
  have d1: "fst (fixed_window_counter_dependency
          (snd (fixed_window_counter_run empty_store ''alice'' 3 60 [59, 119/2, 599/10]))
          ''alice'' 3 60 (1199/20)) = Inl too_many_requests"
    using gen f1 pos by blast
  have d2: "fst (fixed_window_counter_dependency
          (snd (fixed_window_counter_run empty_store ''alice'' 3 60
                  ([59, 119/2, 599/10] @ [60, 601/10, 121/2])))
          ''alice'' 3 60 61) = Inl too_many_requests"
    using gen f2 pos by blast
  from a0 a1 scen f1 f2 d1 d2 show ?thesis by blast
qed

section \<open>Sliding window counter\<close>

lemma py_range_window:
  assumes sub: "0 < sub" and dvd: "sub dvd w" and w: "0 \<le> w"
  shows "py_range (now - w) now sub =
           Inr (map (\<lambda>k. now - w + int k * sub) [0 ..< nat (w div sub)])"
proof -
  from dvd obtain q where q: "w = sub * q" by (auto elim: dvdE)
  have "(sub * q + sub - 1) div sub = q"
  proof -
    have "(sub * q + sub - 1) div sub = (sub - 1 + q * sub) div sub" by (simp add: algebra_simps)
    also have "\<dots> = (sub - 1) div sub + q" using sub by (subst div_mult_self1) simp_all
    also have "(sub - 1) div sub = 0" using sub by (simp add: div_pos_pos_trivial)
    finally show ?thesis by simp
  qed
  then have "(now - (now - w) + sub - 1) div sub = w div sub" using q sub by simp
  with sub show ?thesis by (simp add: py_range_def)
qed

lemma summed_sub_window:
  assumes sub: "0 < sub" and dvd: "sub dvd w" and k: "k < nat (w div sub)"
  shows "(now - w + int k * sub) div sub = now div sub - w div sub + int k"
proof -
  from dvd obtain q where q: "w = sub * q" by (auto elim: dvdE)
  have "now - w + int k * sub = now + (int k - q) * sub" by (simp add: q algebra_simps)
  then have "(now - w + int k * sub) div sub = now div sub + (int k - q)"
    using sub by (simp only: div_mult_self1)
  with q sub show ?thesis by simp
qed

lemma sliding_window_counter_summed:
  assumes sub: "0 < sub" and dvd: "sub dvd w" and w: "0 \<le> w"
  shows "\<exists>ts. py_range (py_int t - w) (py_int t) sub = Inr ts \<and>
           map (\<lambda>x. x div sub) ts =
             map (\<lambda>k. py_int t div sub - w div sub + int k) [0 ..< nat (w div sub)] \<and>
           py_int t div sub \<notin> set (map (\<lambda>x. x div sub) ts)"
proof -
  let ?ts = "map (\<lambda>k. py_int t - w + int k * sub) [0 ..< nat (w div sub)]"
  have r: "py_range (py_int t - w) (py_int t) sub = Inr ?ts"
    by (rule py_range_window[OF sub dvd w])
  have ids: "map (\<lambda>x. x div sub) ?ts =
             map (\<lambda>k. py_int t div sub - w div sub + int k) [0 ..< nat (w div sub)]"
    using summed_sub_window[OF sub dvd] by simp
  have "py_int t div sub \<notin> set (map (\<lambda>k. py_int t div sub - w div sub + int k) [0 ..< nat (w div sub)])"
    by auto
  with r ids show ?thesis by metis
qed

text \<open>
  C1. The claim has the decision sum the counters of every sub-window touched by the
  trailing window, the current one included. The source sums over
  \<open>range(now - window_seconds, now, sub_window_seconds)\<close>, whose last element is
  \<open>now - sub_window_seconds\<close>: the sub-windows summed are the \<open>window_seconds /
  sub_window_seconds\<close> ones before the current one, and the counter the call increments is
  never read in its own sub-window. With \<open>max_requests = 1\<close>, a window of 60 and
  sub-windows of 10, three calls at 65 are all allowed and leave the counter of sub-window 6
  at 3.
\<close>

theorem sliding_window_counter_current_not_summed:
  "py_range (py_int 65 - 60) (py_int 65) 10 = Inr [5, 15, 25, 35, 45, 55] \<and>
   map (\<lambda>timestamp. timestamp div 10) [5, 15, 25, 35, 45, 55 :: int] = [0, 1, 2, 3, 4, 5] \<and>
   py_int 65 div 10 = 6 \<and>
   fst (sliding_window_counter_run empty_store ''alice'' 1 60 10 [65, 65, 65])
     = [Inr allowed, Inr allowed, Inr allowed] \<and>
   get (snd (sliding_window_counter_run empty_store ''alice'' 1 60 10 [65, 65]))
       65 (sliding_window_counter_key ''alice'' 6) = Some 2 \<and>
   get (snd (sliding_window_counter_run empty_store ''alice'' 1 60 10 [65, 65, 65]))
       65 (sliding_window_counter_key ''alice'' 6) = Some 3"
  by code_simp

section \<open>Calls sharing the store\<close>

lemma token_bucket_read_finish:
  "token_bucket_finish s uid m r (token_bucket_read s uid) tf now
     = token_bucket_dependency s uid m r tf now"
  by (simp add: token_bucket_finish_def token_bucket_read_def token_bucket_dependency_def Let_def)

lemma py_int_0 [simp]: "py_int 0 = 0"
  by (simp add: py_int_def)

lemma token_bucket_same_instant_stored:
  "token_bucket_stored s uid = Some (int j, t) \<Longrightarrow> int j \<le> m \<Longrightarrow>
   map fst (token_bucket_trace s uid m r (replicate n (t, t)))
     = replicate (min n j) (Inr allowed) @ replicate (n - j) (Inl too_many_requests)"
proof (induction n arbitrary: s j)
  case 0
  then show ?case by simp
next
  case (Suc n)
  note step = token_bucket_step[where r = r and now = t and t_first = t and m = m,
      OF stored_state[OF Suc.prems(1)]]
  show ?case
  proof (cases j)
    case 0
    with step have call: "token_bucket_dependency s uid m r t t = (Inl too_many_requests, s)"
      by simp
    from Suc.IH[OF Suc.prems] 0 show ?thesis
      by (simp add: call)
  next
    case (Suc i)
    let ?s' = "hmset s (token_bucket_key uid)
                 [(''tokens'', IntV (int i)), (''last_refill_time'', FloatV t)]"
    from Suc step Suc.prems(2) have call: "token_bucket_dependency s uid m r t t = (Inr allowed, ?s')"
      by (simp add: min_def)
    have st': "token_bucket_stored ?s' uid = Some (int i, t)"
      by (rule token_bucket_stored_hmset)
    have le: "int i \<le> m" using Suc Suc.prems(2) by simp
    from \<open>\<And>s j. token_bucket_stored s uid = Some (int j, t) \<Longrightarrow> int j \<le> m \<Longrightarrow>
        map fst (token_bucket_trace s uid m r (replicate n (t, t)))
          = replicate (min n j) (Inr allowed) @ replicate (n - j) (Inl too_many_requests)\<close>[OF st' le]
      Suc show ?thesis
      by (simp add: call)
  qed
qed

text \<open>
  C8, as amended. The read and the write of a token-bucket call are two store commands;
  run back to back they are the call. Calls that run one after the other admit exactly half
  of \<open>N = 2k\<close> calls made at one instant with \<open>max_tokens = k\<close> from absent state: the
  first \<open>k\<close> are allowed and the other \<open>k\<close> denied.
\<close>

theorem token_bucket_serial_admission:
  "token_bucket_finish s uid m r (token_bucket_read s uid) tf now
     = token_bucket_dependency s uid m r tf now \<and>
   (0 < k \<and> hashes s (token_bucket_key uid) ''tokens'' = None \<longrightarrow>
      map fst (token_bucket_trace s uid (int k) r (replicate (2 * k) (t, t)))
        = replicate k (Inr allowed) @ replicate k (Inl too_many_requests))"
proof (intro conjI impI)
  show "token_bucket_finish s uid m r (token_bucket_read s uid) tf now
     = token_bucket_dependency s uid m r tf now"
    by (rule token_bucket_read_finish)
next
  assume a: "0 < k \<and> hashes s (token_bucket_key uid) ''tokens'' = None"
  then obtain n where n: "2 * k = Suc n" and k: "0 < k" by (cases k) auto
  let ?s' = "hmset s (token_bucket_key uid)
               [(''tokens'', IntV (int (k - 1))), (''last_refill_time'', FloatV t)]"
  from a have st: "token_bucket_state s uid (int k) t = Some (int k, t)"
    by (simp add: token_bucket_state_absent)
  have call: "token_bucket_dependency s uid (int k) r t t = (Inr allowed, ?s')"
    using token_bucket_step[where r = r and now = t, OF st] k by (simp add: of_nat_diff)
  have st': "token_bucket_stored ?s' uid = Some (int (k - 1), t)"
    by (rule token_bucket_stored_hmset)
  have le: "int (k - 1) \<le> int k" by simp
  from token_bucket_same_instant_stored[OF st' le, of r n]
  have "map fst (token_bucket_trace ?s' uid (int k) r (replicate n (t, t)))
     = replicate (min n (k - 1)) (Inr allowed) @ replicate (n - (k - 1)) (Inl too_many_requests)" .
  moreover have "min n (k - 1) = k - 1" "n - (k - 1) = k" using n k by auto
  ultimately have rest: "map fst (token_bucket_trace ?s' uid (int k) r (replicate n (t, t)))
     = replicate (k - 1) (Inr allowed) @ replicate k (Inl too_many_requests)" by simp
  have "replicate k (Inr allowed :: error + response) = Inr allowed # replicate (k - 1) (Inr allowed)"
    using k by (cases k) simp_all
  with rest show "map fst (token_bucket_trace s uid (int k) r (replicate (2 * k) (t, t)))
        = replicate k (Inr allowed) @ replicate k (Inl too_many_requests)"
    unfolding n by (simp add: call)
qed

theorem token_bucket_serial_admission_witness:
  "(0::nat) < 2 \<and> hashes empty_store (token_bucket_key ''alice'') ''tokens'' = None \<and>
   map fst (token_bucket_trace empty_store ''alice'' 2 1 [(0, 0), (0, 0), (0, 0), (0, 0)])
     = [Inr allowed, Inr allowed, Inl too_many_requests, Inl too_many_requests]"
proof -
  have h: "(0::nat) < 2 \<and> hashes empty_store (token_bucket_key ''alice'') ''tokens'' = None"
    by (simp add: empty_store_def)
  from token_bucket_serial_admission
    [where s = empty_store and uid = "''alice''" and k = 2 and r = 1 and t = 0,
     THEN conjunct2, rule_format, OF h]
  have "map fst (token_bucket_trace empty_store ''alice'' 2 1 [(0, 0), (0, 0), (0, 0), (0, 0)])
     = [Inr allowed, Inr allowed, Inl too_many_requests, Inl too_many_requests]"
    by (simp add: numeral_eq_Suc)
  with h show ?thesis by simp
qed

text \<open>
  C8 as stated fails: the sequence is not atomic. With \<open>max_tokens = 1\<close>, two calls that
  both read before either writes are both allowed, where the same calls one after the
  other admit one.
\<close>

theorem token_bucket_interleaved_counterexample:
  "fst (token_bucket_interleaved empty_store ''alice'' 1 1 0 0 0 0) = [Inr allowed, Inr allowed] \<and>
   map fst (token_bucket_trace empty_store ''alice'' 1 1 [(0, 0), (0, 0)])
     = [Inr allowed, Inl too_many_requests]"
  by code_simp

end
